theory Spec2Isabelle
  imports Main "HOL-Library.AList" "HOL-Library.List_Lexorder"
begin

section \<open>Strings of the JavaScript program\<close>

text \<open>
  A JavaScript string is a sequence of UTF-16 code units; \<open>length\<close>, \<open>slice\<close>,
  \<open>indexOf\<close> and the regular expressions of the program (none has the \<open>u\<close> flag) all
  count code units. A string is therefore a list of code units, each a natural number.
  \<open>js\<close> writes an ASCII literal of the source.
\<close>

type_synonym jsstring = "nat list"

definition js :: "string \<Rightarrow> jsstring" where
  "js s = map of_char s"

text \<open>
  \<open>String.prototype.trim\<close> removes WhiteSpace and LineTerminator code units from both
  ends; \<open>\s\<close> in a regular expression is the same set.
\<close>

definition isWhiteSpace :: "nat \<Rightarrow> bool" where
  "isWhiteSpace c \<longleftrightarrow>
     c \<in> {9, 10, 11, 12, 13, 32, 160, 5760, 8232, 8233, 8239, 8287, 12288, 65279}
     \<or> (8192 \<le> c \<and> c \<le> 8202)"

definition trim :: "jsstring \<Rightarrow> jsstring" where
  "trim s = rev (dropWhile isWhiteSpace (rev (dropWhile isWhiteSpace s)))"

text \<open>\<open>s.split(c)\<close> for a separator of one code unit: never the empty list.\<close>

fun splitOn :: "nat \<Rightarrow> jsstring \<Rightarrow> jsstring list" where
  "splitOn c [] = [[]]"
| "splitOn c (x # xs) =
     (if x = c then [] # splitOn c xs
      else (case splitOn c xs of [] \<Rightarrow> [[x]] | y # ys \<Rightarrow> (x # y) # ys))"

text \<open>\<open>parts.join(sep)\<close>.\<close>

fun joinWith :: "jsstring \<Rightarrow> jsstring list \<Rightarrow> jsstring" where
  "joinWith sep [] = []"
| "joinWith sep [x] = x"
| "joinWith sep (x # y # ys) = x @ sep @ joinWith sep (y # ys)"

text \<open>\<open>s.indexOf(c)\<close> for one code unit: the first position, or \<open>-1\<close>.\<close>

definition indexOf :: "nat \<Rightarrow> jsstring \<Rightarrow> int" where
  "indexOf c s = (if c \<in> set s then int (length (takeWhile (\<lambda>x. x \<noteq> c) s)) else - 1)"

section \<open>Session client: merging cookie headers\<close>

text \<open>
  \<open>mergeCookieHeaders\<close> (src/index.js). The \<open>Map\<close> is an association list in insertion
  order; \<open>map.set\<close> replaces the value of a key in place and appends a new key at the end,
  which is \<open>AList.update\<close>. \<open>existingCookie || ''\<close> is the identity on strings.
  \<open>cookieStep\<close> is the body of the loop over the segments.
\<close>

definition cookieStep :: "(jsstring \<times> jsstring) list \<Rightarrow> jsstring \<Rightarrow> (jsstring \<times> jsstring) list" where
  "cookieStep mp part =
     (let trimmed = trim part in
      if trimmed = [] then mp
      else let eq = indexOf 61 trimmed in
        if eq \<le> 0 then mp
        else let k = trim (take (nat eq) trimmed);
                 v = trim (drop (nat eq + 1) trimmed)
             in AList.update k v mp)"

definition mergeCookieMap :: "jsstring \<Rightarrow> jsstring \<Rightarrow> (jsstring \<times> jsstring) list" where
  "mergeCookieMap existingCookie newCookie =
     foldl cookieStep [] (splitOn 59 (existingCookie @ js ''; '' @ newCookie))"

definition mergeCookieHeaders :: "jsstring \<Rightarrow> jsstring \<Rightarrow> jsstring" where
  "mergeCookieHeaders existingCookie newCookie =
     joinWith (js ''; '')
       (map (\<lambda>(k, v). k @ js ''='' @ v) (mergeCookieMap existingCookie newCookie))"

text \<open>
  The specification's reading of one \<open>;\<close>-delimited segment, for comparison with the loop
  body: a segment is a pair when it has an \<open>=\<close> and the text before the first \<open>=\<close> is
  not blank; key and value are trimmed. Keys are compared code unit by code unit.
\<close>

definition cookiePair :: "jsstring \<Rightarrow> (jsstring \<times> jsstring) option" where
  "cookiePair seg =
     (if 61 \<notin> set seg then None
      else let k = trim (takeWhile (\<lambda>x. x \<noteq> 61) seg);
               v = trim (tl (dropWhile (\<lambda>x. x \<noteq> 61) seg))
           in if k = [] then None else Some (k, v))"

definition cookiePairs :: "jsstring list \<Rightarrow> (jsstring \<times> jsstring) list" where
  "cookiePairs segs = List.map_filter cookiePair segs"

section \<open>Notification dispatcher: splitting a message into chunks\<close>

text \<open>
  \<open>splitForTelegram\<close> (src/index.js). The inner \<open>while (rest.length > maxLen)\<close> loop is
  \<open>hardSplit\<close>: it returns the chunks it pushed and the final \<open>rest\<close>. With
  \<open>maxLen = 0\<close> the loop never ends (it pushes the empty slice forever), so the result is
  an option and not returning is \<open>None\<close>. \<open>lineStep\<close> is the body of the loop over the
  lines, on the pair of \<open>chunks\<close> and \<open>current\<close>; the tests \<open>current ? \<dots>\<close> and
  \<open>if (current)\<close> are tests for the non-empty string.
\<close>

partial_function (option) hardSplit :: "nat \<Rightarrow> jsstring \<Rightarrow> (jsstring list \<times> jsstring) option" where
  "hardSplit maxLen rest =
     (if length rest > maxLen
      then Option.bind (hardSplit maxLen (drop maxLen rest))
             (\<lambda>(cs, r). Some (take maxLen rest # cs, r))
      else Some ([], rest))"

definition lineStep :: "nat \<Rightarrow> jsstring list \<times> jsstring \<Rightarrow> jsstring \<Rightarrow> (jsstring list \<times> jsstring) option" where
  "lineStep maxLen st line =
     (case st of (chunks, current) \<Rightarrow>
        let candidate = (if current \<noteq> [] then current @ [10] @ line else line) in
        if length candidate \<le> maxLen then Some (chunks, candidate)
        else let chunks1 = (if current \<noteq> [] then chunks @ [current] else chunks) in
          if length line \<le> maxLen then Some (chunks1, line)
          else Option.bind (hardSplit maxLen line) (\<lambda>(cs, rest). Some (chunks1 @ cs, rest)))"

fun linesLoop :: "nat \<Rightarrow> jsstring list \<times> jsstring \<Rightarrow> jsstring list \<Rightarrow> (jsstring list \<times> jsstring) option" where
  "linesLoop maxLen st [] = Some st"
| "linesLoop maxLen st (line # lines) = Option.bind (lineStep maxLen st line) (\<lambda>st'. linesLoop maxLen st' lines)"

definition splitForTelegram :: "jsstring \<Rightarrow> nat \<Rightarrow> jsstring list option" where
  "splitForTelegram text maxLen =
     (if length text \<le> maxLen then Some [text]
      else Option.bind (linesLoop maxLen ([], []) (splitOn 10 text))
             (\<lambda>(chunks, current). Some (if current \<noteq> [] then chunks @ [current] else chunks)))"

text \<open>Abbreviations used in the statements about the chunks.\<close>

definition chunksOk :: "nat \<Rightarrow> jsstring list \<Rightarrow> bool" where
  "chunksOk maxLen chunks \<longleftrightarrow> (\<forall>c\<in>set chunks. c \<noteq> [] \<and> length c \<le> maxLen)"

definition noNl :: "jsstring \<Rightarrow> jsstring" where
  "noNl s = filter (\<lambda>x. x \<noteq> 10) s"

text \<open>
  Notions used in the statement about the chunks and the text. \<open>nls s\<close>: the string \<open>s\<close>
  consists of newlines only. \<open>weave\<close> writes chunks and the gaps after them one after the
  other. \<open>gapOk\<close>: the gap after a chunk is a run of newlines, and it is the single newline
  unless the chunk has exactly \<open>maxLen\<close> characters. \<open>terminated\<close> writes lines one after the
  other, each followed by a newline.
\<close>

definition nls :: "jsstring \<Rightarrow> bool" where
  "nls s \<longleftrightarrow> list_all (\<lambda>x. x = 10) s"

definition gapOk :: "nat \<Rightarrow> jsstring \<times> jsstring \<Rightarrow> bool" where
  "gapOk maxLen cg \<longleftrightarrow> nls (snd cg) \<and> (snd cg \<noteq> [10] \<longrightarrow> length (fst cg) = maxLen)"

definition weave :: "(jsstring \<times> jsstring) list \<Rightarrow> jsstring" where
  "weave ps = concat (map (\<lambda>cg. fst cg @ snd cg) ps)"

definition terminated :: "jsstring list \<Rightarrow> jsstring" where
  "terminated ls = concat (map (\<lambda>l. l @ [10]) ls)"

text \<open>
  The invariant of the loop over the lines, for the text \<open>T\<close> read so far (each line with
  its newline): \<open>T\<close> is a run of newlines, then the chunks with their gaps, then \<open>current\<close>
  with its newline; when \<open>current\<close> is empty the last chunk has exactly \<open>maxLen\<close>
  characters; and under \<open>H\<close> (no line so far exceeds the limit) no gap is empty.
\<close>

definition recon :: "nat \<Rightarrow> bool \<Rightarrow> jsstring \<Rightarrow> jsstring list \<Rightarrow> jsstring \<Rightarrow> bool" where
  "recon maxLen H T chunks current \<longleftrightarrow>
     (\<exists>n0 ps. map fst ps = chunks \<and> nls n0 \<and> list_all (gapOk maxLen) ps
        \<and> (H \<longrightarrow> list_all (\<lambda>cg. snd cg \<noteq> []) ps)
        \<and> T = n0 @ weave ps @ (if current = [] then [] else current @ [10])
        \<and> (current = [] \<and> chunks \<noteq> [] \<longrightarrow> length (last chunks) = maxLen))"
section \<open>Dedup state store\<close>

text \<open>
  A value read by \<open>JSON.parse\<close>. An object is its list of properties (distinct keys, as
  \<open>JSON.parse\<close> produces them); a number is stood for by an integer, which is enough to
  tell zero from the others, the only thing the program asks of a number of the state.
\<close>

datatype json =
    JNull
  | JBool bool
  | JNum int
  | JStr jsstring
  | JArr "json list"
  | JObj "(jsstring \<times> json) list"

text \<open>
  The state file as \<open>loadState\<close> meets it: \<open>existsSync\<close> says no; \<open>readFileSync\<close>
  throws (with a message); \<open>JSON.parse\<close> throws a syntax error (with a message); or the
  text parses to a value.
\<close>

datatype statefile =
    NoFile
  | Unreadable jsstring
  | Corrupt jsstring
  | Document json

text \<open>
  \<open>typeof\<close>, truthiness and the property read \<open>data.seen\<close>; \<open>None\<close> is \<open>undefined\<close>.
  The property read is applied to truthy values of type object only; an array has no
  property of a name that is not an index.
\<close>

fun typeof :: "json option \<Rightarrow> string" where
  "typeof None = ''undefined''"
| "typeof (Some JNull) = ''object''"
| "typeof (Some (JBool b)) = ''boolean''"
| "typeof (Some (JNum n)) = ''number''"
| "typeof (Some (JStr s)) = ''string''"
| "typeof (Some (JArr xs)) = ''object''"
| "typeof (Some (JObj ps)) = ''object''"

fun truthy :: "json option \<Rightarrow> bool" where
  "truthy None = False"
| "truthy (Some JNull) = False"
| "truthy (Some (JBool b)) = b"
| "truthy (Some (JNum n)) = (n \<noteq> 0)"
| "truthy (Some (JStr s)) = (s \<noteq> [])"
| "truthy (Some (JArr xs)) = True"
| "truthy (Some (JObj ps)) = True"

fun getProp :: "json \<Rightarrow> jsstring \<Rightarrow> json option" where
  "getProp (JObj ps) k = map_of ps k"
| "getProp v k = None"

text \<open>
  \<open>loadState\<close> (both variants of the script are the same here). The result is the
  returned state and the warnings logged; \<open>now\<close> is what \<open>nowIso()\<close> returns in the
  handler. The three tests of the source's \<open>||\<close> are made in its order.
\<close>

definition emptyState :: json where
  "emptyState = JObj [(js ''seen'', JObj [])]"

definition loadWarning :: "jsstring \<Rightarrow> jsstring \<Rightarrow> jsstring" where
  "loadWarning now msg = js ''['' @ now @ js ''] state load failed: '' @ msg"

definition loadState :: "jsstring \<Rightarrow> statefile \<Rightarrow> json \<times> jsstring list" where
  "loadState now f =
     (case f of
        NoFile \<Rightarrow> (emptyState, [])
      | Unreadable msg \<Rightarrow> (emptyState, [loadWarning now msg])
      | Corrupt msg \<Rightarrow> (emptyState, [loadWarning now msg])
      | Document data \<Rightarrow>
          if \<not> truthy (Some data) then (emptyState, [])
          else if typeof (Some data) \<noteq> ''object'' then (emptyState, [])
          else if typeof (getProp data (js ''seen'')) \<noteq> ''object'' then (emptyState, [])
          else (data, []))"

section \<open>Slots and the seen filter\<close>

text \<open>
  \<open>String(n)\<close> for a plan id: the decimal digits (exact for the integers below \<open>10^21\<close>,
  which JavaScript prints without an exponent).
\<close>

function numToString :: "nat \<Rightarrow> jsstring" where
  "numToString n = (if n < 10 then [48 + n] else numToString (n div 10) @ [48 + n mod 10])"
  by pat_completeness auto
termination by (relation "measure id") auto

declare numToString.simps [simp del]

text \<open>
  A plan and a slot as \<open>checkOnce\<close> builds them: \<open>found.push({planId, planLabel, date, key})\<close>
  with \<open>key = `${plan.id}|${slotDate}`\<close>. \<open>foundSlots\<close> is the double loop over the
  target plans and the months, given the dates \<open>parseAvailableDates\<close> returned for each
  fetched calendar, in the order of the fetches.
\<close>

record plan =
  plan_id :: nat
  label :: jsstring

record slot =
  planId :: nat
  planLabel :: jsstring
  date :: jsstring
  key :: jsstring

definition mkSlot :: "plan \<Rightarrow> jsstring \<Rightarrow> slot" where
  "mkSlot p slotDate =
     \<lparr> planId = plan_id p, planLabel = label p, date = slotDate,
       key = numToString (plan_id p) @ js ''|'' @ slotDate \<rparr>"

definition foundSlots :: "(plan \<times> jsstring list) list \<Rightarrow> slot list" where
  "foundSlots fetched = concat (map (\<lambda>(p, availableDates). map (mkSlot p) availableDates) fetched)"

text \<open>
  The filter loop of \<open>checkOnce\<close> in the earlier variant of the script
  (src/unnamed/part_000, lines 402-408):
  \<^verbatim>\<open>if (!state.seen[slot.key]) { state.seen[slot.key] = nowIso(); newMatches.push(slot); }\<close>
  \<open>state.seen\<close> is a map from keys to values; the test is JavaScript truthiness of the
  value read (\<open>undefined\<close> when the key is absent). A key of a slot contains \<open>|\<close> and so
  never names an inherited property of the object. \<open>clock n\<close> is what the \<open>n\<close>-th call of
  \<open>nowIso()\<close> returns.
\<close>

type_synonym seen = "jsstring \<rightharpoonup> json"

record filterState =
  seenOf :: seen
  newMatches :: "slot list"
  ticks :: nat

definition seenStep :: "(nat \<Rightarrow> jsstring) \<Rightarrow> filterState \<Rightarrow> slot \<Rightarrow> filterState" where
  "seenStep clock st s =
     (if \<not> truthy (seenOf st (key s))
      then \<lparr> seenOf = (seenOf st)(key s \<mapsto> JStr (clock (ticks st))),
             newMatches = newMatches st @ [s],
             ticks = Suc (ticks st) \<rparr>
      else st)"

definition seenFilter :: "(nat \<Rightarrow> jsstring) \<Rightarrow> nat \<Rightarrow> seen \<Rightarrow> slot list \<Rightarrow> filterState" where
  "seenFilter clock t sn found = foldl (seenStep clock) \<lparr> seenOf = sn, newMatches = [], ticks = t \<rparr> found"

text \<open>
  The slots a filter run reports, described directly: \<open>known\<close> tells the keys that count as
  seen, and each reported key becomes known.
\<close>

fun newSlots :: "(jsstring \<Rightarrow> bool) \<Rightarrow> slot list \<Rightarrow> slot list" where
  "newSlots known [] = []"
| "newSlots known (s # ss) =
     (if known (key s) then newSlots known ss else s # newSlots (known(key s := True)) ss)"

text \<open>
  \<open>dedupeFoundSlots\<close> (src/index.js): a \<open>Map\<close> keyed by \<open>slot.key\<close> that keeps the first
  slot of each key, then a sort by date (\<open>localeCompare\<close>, a parameter here) and plan id.
  \<open>Array.prototype.sort\<close> is stable; \<open>sortBy\<close> is the stable insertion sort.
\<close>

definition slotCompare :: "(jsstring \<Rightarrow> jsstring \<Rightarrow> int) \<Rightarrow> slot \<Rightarrow> slot \<Rightarrow> int" where
  "slotCompare localeCompare a b =
     (if date a \<noteq> date b then localeCompare (date a) (date b)
      else int (planId a) - int (planId b))"

fun insertBy :: "('a \<Rightarrow> 'a \<Rightarrow> int) \<Rightarrow> 'a \<Rightarrow> 'a list \<Rightarrow> 'a list" where
  "insertBy cmp x [] = [x]"
| "insertBy cmp x (y # ys) = (if cmp x y \<le> 0 then x # y # ys else y # insertBy cmp x ys)"

definition sortBy :: "('a \<Rightarrow> 'a \<Rightarrow> int) \<Rightarrow> 'a list \<Rightarrow> 'a list" where
  "sortBy cmp xs = foldr (insertBy cmp) xs []"

definition byKeyStep :: "(jsstring \<times> slot) list \<Rightarrow> slot \<Rightarrow> (jsstring \<times> slot) list" where
  "byKeyStep byKey s = (if map_of byKey (key s) = None then byKey @ [(key s, s)] else byKey)"

definition dedupeFoundSlots :: "(jsstring \<Rightarrow> jsstring \<Rightarrow> int) \<Rightarrow> slot list \<Rightarrow> slot list" where
  "dedupeFoundSlots localeCompare slots =
     sortBy (slotCompare localeCompare) (map snd (foldl byKeyStep [] slots))"

text \<open>
  One polling cycle, from the end of discovery on. \<open>discovered\<close> is what the steps before
  the filter produce: an exception, or the list \<open>found\<close>. \<open>delivered\<close> tells whether
  \<open>sendTelegramMessage\<close> returns. The world is \<open>state.seen\<close> in memory, what \<open>saveState\<close>
  last wrote, and the number of clock reads. \<open>checkOnce0\<close> is \<open>checkOnce\<close> of the earlier
  variant (src/unnamed/part_000), \<open>checkOnce\<close> that of src/index.js, which neither reads nor
  writes \<open>state\<close>. \<open>mainLoop\<close> is \<open>while (true) { try { await checkOnce(state) } catch \<dots> }\<close>
  over the cycles given.
\<close>

datatype dispatch = NoDispatch | Dispatched "slot list"

record cycleEnv =
  discovered :: "jsstring + slot list"
  delivered :: bool

record world =
  mem :: seen
  saved :: "seen option"
  tick :: nat

definition checkOnce0 :: "(nat \<Rightarrow> jsstring) \<Rightarrow> cycleEnv \<Rightarrow> world \<Rightarrow> world \<times> dispatch" where
  "checkOnce0 clock env w =
     (case discovered env of
        Inl err \<Rightarrow> (w, NoDispatch)
      | Inr found \<Rightarrow>
          let st = seenFilter clock (tick w) (mem w) found;
              w1 = w \<lparr> mem := seenOf st, tick := ticks st \<rparr>
          in if newMatches st \<noteq> []
             then (if delivered env then (w1 \<lparr> saved := Some (seenOf st) \<rparr>, Dispatched (newMatches st))
                   else (w1, Dispatched (newMatches st)))
             else (w1, NoDispatch))"

definition checkOnce :: "(jsstring \<Rightarrow> jsstring \<Rightarrow> int) \<Rightarrow> cycleEnv \<Rightarrow> world \<Rightarrow> world \<times> dispatch" where
  "checkOnce localeCompare env w =
     (case discovered env of
        Inl err \<Rightarrow> (w, NoDispatch)
      | Inr found \<Rightarrow>
          let uniqueFound = dedupeFoundSlots localeCompare found
          in if uniqueFound \<noteq> [] then (w, Dispatched uniqueFound) else (w, NoDispatch))"

fun mainLoop :: "(cycleEnv \<Rightarrow> world \<Rightarrow> world \<times> dispatch) \<Rightarrow> cycleEnv list \<Rightarrow> world \<Rightarrow> world \<times> dispatch list" where
  "mainLoop cycle [] w = (w, [])"
| "mainLoop cycle (env # envs) w =
     (case cycle env w of (w1, d) \<Rightarrow>
        (case mainLoop cycle envs w1 of (w2, ds) \<Rightarrow> (w2, d # ds)))"

section \<open>Regular expressions of the script\<close>

text \<open>
  The regular expressions of the script are written as lists of items and run by a
  backtracking matcher that follows the order of alternatives of JavaScript's matcher:
  a greedy quantifier tries the longer match first, a lazy one the shorter. A character class
  is \<open>[\s\S]\<close>, \<open>\d\<close>, \<open>\s\<close>, a positive set or a negated set. All the classes of
  the script hold no letter, so the \<open>i\<close> flag does not change them.
\<close>

datatype cset = AnyChar | Digit | Space | OneOf "nat list" | NoneOf "nat list"

fun inClass :: "cset \<Rightarrow> nat \<Rightarrow> bool" where
  "inClass AnyChar c = True"
| "inClass Digit c = (48 \<le> c \<and> c \<le> 57)"
| "inClass Space c = isWhiteSpace c"
| "inClass (OneOf cs) c = (c \<in> set cs)"
| "inClass (NoneOf cs) c = (c \<notin> set cs)"

text \<open>
  The items: a literal text; one character of a class; a class repeated (greedy or lazy,
  at least \<open>lo\<close> times, at most \<open>hi\<close> times when \<open>hi\<close> is given); an optional
  non-capturing group \<open>(?:\<dots>)?\<close>; a capturing group; a backreference \<open>\n\<close>; \<open>\b\<close>;
  \<open>^\<close> and \<open>$\<close>. \<open>CapEnd n start\<close> is not written in a pattern: the matcher puts it
  behind the items of group \<open>n\<close> to record the capture when the group ends; \<open>start\<close> is
  the position where the group began. \<open>rxSize\<close> measures a pattern for the termination
  of the matcher.
\<close>

datatype rx =
    Lit jsstring
  | Cls cset
  | Rep bool nat "nat option" cset
  | Opt "rx list"
  | Cap nat "rx list"
  | CapEnd nat nat
  | Back nat
  | WordB
  | Bol
  | Eol

primrec rxSize :: "rx \<Rightarrow> nat" where
  "rxSize (Lit l) = 1"
| "rxSize (Cls c) = 1"
| "rxSize (Rep g lo hi c) = 1"
| "rxSize (Opt rs) = Suc (sum_list (map rxSize rs))"
| "rxSize (Cap n rs) = Suc (Suc (sum_list (map rxSize rs)))"
| "rxSize (CapEnd n start) = 1"
| "rxSize (Back n) = 1"
| "rxSize WordB = 1"
| "rxSize Bol = 1"
| "rxSize Eol = 1"

text \<open>
  With the \<open>i\<close> flag two code units match when their canonical forms agree. The
  literals of the script are ASCII or have no case (the two ideographs of the year and month
  banner), and a code unit beyond ASCII is never canonicalised to an ASCII one, so the
  canonical form is needed for the ASCII letters only. The field name given to
  \<open>extractInputValue\<close> is part of its pattern: for a name of ASCII characters this is
  JavaScript's comparison too, and the statement about the hidden fields is made for such
  names (a cased letter beyond ASCII in the name would also match its other case in
  JavaScript).
\<close>

definition canon :: "nat \<Rightarrow> nat" where
  "canon c = (if 97 \<le> c \<and> c \<le> 122 then c - 32 else c)"

definition chEq :: "bool \<Rightarrow> nat \<Rightarrow> nat \<Rightarrow> bool" where
  "chEq ci a b = (if ci then canon a = canon b else a = b)"

fun litPrefix :: "bool \<Rightarrow> jsstring \<Rightarrow> jsstring \<Rightarrow> bool" where
  "litPrefix ci [] s = True"
| "litPrefix ci (x # xs) [] = False"
| "litPrefix ci (x # xs) (y # ys) = (chEq ci x y \<and> litPrefix ci xs ys)"

text \<open>
  \<open>\b\<close> holds where exactly one of the code units before and after the position is a word
  character.
\<close>

definition isWordChar :: "nat \<Rightarrow> bool" where
  "isWordChar c \<longleftrightarrow> (48 \<le> c \<and> c \<le> 57) \<or> (65 \<le> c \<and> c \<le> 90) \<or> (97 \<le> c \<and> c \<le> 122) \<or> c = 95"

definition wordAt :: "jsstring \<Rightarrow> bool" where
  "wordAt s = (case s of [] \<Rightarrow> False | x # xs \<Rightarrow> isWordChar x)"

text \<open>
  The matcher. \<open>matchAt ci re p s caps\<close> matches the items \<open>re\<close> at the current position:
  \<open>s\<close> is the rest of the subject, \<open>p\<close> the part before the position, reversed, and
  \<open>caps\<close> the captures so far (the latest first). \<open>ci\<close> is the \<open>i\<close> flag. The result
  is the captures and the position after the match, or \<open>None\<close>.
\<close>

type_synonym captures = "(nat \<times> jsstring) list"

type_synonym mresult = "captures \<times> jsstring \<times> jsstring"

function matchAt :: "bool \<Rightarrow> rx list \<Rightarrow> jsstring \<Rightarrow> jsstring \<Rightarrow> captures \<Rightarrow> mresult option" where
  "matchAt ci [] p s caps = Some (caps, p, s)"
| "matchAt ci (Lit l # k) p s caps =
     (if litPrefix ci l s then matchAt ci k (rev (take (length l) s) @ p) (drop (length l) s) caps else None)"
| "matchAt ci (Cls c # k) p s caps =
     (case s of [] \<Rightarrow> None | x # xs \<Rightarrow> if inClass c x then matchAt ci k (x # p) xs caps else None)"
| "matchAt ci (Rep g lo hi c # k) p s caps =
     (if 0 < lo then
        (case s of [] \<Rightarrow> None
         | x # xs \<Rightarrow> if hi \<noteq> Some 0 \<and> inClass c x
                     then matchAt ci (Rep g (lo - 1) (map_option (\<lambda>h. h - 1) hi) c # k) (x # p) xs caps
                     else None)
      else if g then
        (case (case s of [] \<Rightarrow> None
               | x # xs \<Rightarrow> if hi \<noteq> Some 0 \<and> inClass c x
                           then matchAt ci (Rep g 0 (map_option (\<lambda>h. h - 1) hi) c # k) (x # p) xs caps
                           else None) of
           Some r \<Rightarrow> Some r
         | None \<Rightarrow> matchAt ci k p s caps)
      else
        (case matchAt ci k p s caps of
           Some r \<Rightarrow> Some r
         | None \<Rightarrow>
            (case s of [] \<Rightarrow> None
             | x # xs \<Rightarrow> if hi \<noteq> Some 0 \<and> inClass c x
                         then matchAt ci (Rep g 0 (map_option (\<lambda>h. h - 1) hi) c # k) (x # p) xs caps
                         else None)))"
| "matchAt ci (Opt rs # k) p s caps =
     (case matchAt ci (rs @ k) p s caps of Some r \<Rightarrow> Some r | None \<Rightarrow> matchAt ci k p s caps)"
| "matchAt ci (Cap n rs # k) p s caps = matchAt ci (rs @ CapEnd n (length p) # k) p s caps"
| "matchAt ci (CapEnd n start # k) p s caps =
     matchAt ci k p s ((n, rev (take (length p - start) p)) # caps)"
| "matchAt ci (Back n # k) p s caps =
     (case map_of caps n of
        None \<Rightarrow> matchAt ci k p s caps
      | Some l \<Rightarrow> if litPrefix ci l s
                  then matchAt ci k (rev (take (length l) s) @ p) (drop (length l) s) caps else None)"
| "matchAt ci (WordB # k) p s caps = (if wordAt p \<noteq> wordAt s then matchAt ci k p s caps else None)"
| "matchAt ci (Bol # k) p s caps = (if p = [] then matchAt ci k p s caps else None)"
| "matchAt ci (Eol # k) p s caps = (if s = [] then matchAt ci k p s caps else None)"
  by pat_completeness auto
termination
  by (relation "measures [\<lambda>(ci, rs, p, s, caps). length s, \<lambda>(ci, rs, p, s, caps). sum_list (map rxSize rs)]")
     auto

text \<open>
  \<open>searchFrom\<close> is an unanchored search (\<open>match\<close>, \<open>test\<close>, and one \<open>exec\<close> from
  \<open>lastIndex\<close>): the first position, from the current one on, where the pattern matches.
\<close>

fun searchFrom :: "bool \<Rightarrow> rx list \<Rightarrow> jsstring \<Rightarrow> jsstring \<Rightarrow> mresult option" where
  "searchFrom ci re p [] = matchAt ci re p [] []"
| "searchFrom ci re p (x # xs) =
     (case matchAt ci re p (x # xs) [] of Some r \<Rightarrow> Some r | None \<Rightarrow> searchFrom ci re (x # p) xs)"

text \<open>
  The loop \<open>while ((match = regex.exec(html)) !== null)\<close> of a pattern with the \<open>g\<close>
  flag, which collects the captures of the successive matches. A match that does not move
  \<open>lastIndex\<close> would be found again for ever: the loop does not return, which is \<open>None\<close>.
  \<open>[...cell.matchAll(re)]\<close> is the same list as long as no match is empty, and is modelled by
  the same function (an empty match gives \<open>None\<close> here as well).
\<close>

function execAll :: "bool \<Rightarrow> rx list \<Rightarrow> jsstring \<Rightarrow> jsstring \<Rightarrow> captures list option" where
  "execAll ci re p s =
     (case searchFrom ci re p s of
        None \<Rightarrow> Some []
      | Some (caps, p', s') \<Rightarrow>
          if length s' < length s then map_option (Cons caps) (execAll ci re p' s') else None)"
  by pat_completeness auto
termination
  by (relation "measure (\<lambda>(ci, re, p, s). length s)") auto

text \<open>
  The classes \<open>["']\<close>, \<open>[^"']\<close> and \<open>[^>]\<close>; \<open>re.test(s)\<close>; the capture
  \<open>match[n]\<close> (\<open>None\<close> is \<open>undefined\<close>); and a capture read as a string.
\<close>

definition quotes :: cset where "quotes = OneOf (js ''\"'' @ [39])"

definition notQuote :: cset where "notQuote = NoneOf (js ''\"'' @ [39])"

definition notGt :: cset where "notGt = NoneOf (js ''>'')"

definition test :: "bool \<Rightarrow> rx list \<Rightarrow> jsstring \<Rightarrow> bool" where
  "test ci re s = (searchFrom ci re [] s \<noteq> None)"

definition capGroup :: "captures \<Rightarrow> nat \<Rightarrow> jsstring option" where
  "capGroup caps n = map_of caps n"

definition orEmpty :: "jsstring option \<Rightarrow> jsstring" where
  "orEmpty v = (case v of None \<Rightarrow> [] | Some s \<Rightarrow> s)"

text \<open>
  \<open>Number(match[n])\<close> followed by \<open>Number.isInteger\<close>. The captures it is applied to are
  those of \<open>\d\<close> groups, strings of decimal digits, whose value is \<open>digitsValue\<close>
  (exact below \<open>2^53\<close>, where a JavaScript number holds every integer); \<open>None\<close> stands
  for a value that is not an integer.
\<close>

definition digitsValue :: "jsstring \<Rightarrow> nat" where
  "digitsValue s = foldl (\<lambda>a d. 10 * a + (d - 48)) 0 s"

definition toNumber :: "jsstring option \<Rightarrow> nat option" where
  "toNumber v =
     (case v of None \<Rightarrow> None
      | Some s \<Rightarrow> if s \<noteq> [] \<and> list_all (inClass Digit) s then Some (digitsValue s) else None)"

section \<open>Markup extractor\<close>

text \<open>
  A \<open>Date\<close> as far as the script reads it: \<open>getFullYear()\<close>, \<open>getMonth()\<close> (from 0) and
  \<open>getDate()\<close>.
\<close>

record jsdate =
  fullYear :: nat
  monthIndex :: nat
  dayOfMonth :: nat

text \<open>
  \<open>parseYearMonth\<close> (src/index.js; the same in both variants), with its pattern
  \<^verbatim>\<open>/<div class=["']date["']>[\s\S]*?(\d{4})Y[\s\S]*?<b>(\d{1,2})<\/b>M[\s\S]*?<\/div>/i\<close>
  where \<open>Y\<close> and \<open>M\<close> stand for the ideographs U+5E74 (24180) and U+6708 (26376).
\<close>

definition yearMonthRegex :: "rx list" where
  "yearMonthRegex =
     [Lit (js ''<div class=''), Cls quotes, Lit (js ''date''), Cls quotes, Lit (js ''>''),
      Rep False 0 None AnyChar, Cap 1 [Rep True 4 (Some 4) Digit], Lit [24180],
      Rep False 0 None AnyChar, Lit (js ''<b>''), Cap 2 [Rep True 1 (Some 2) Digit],
      Lit (js ''</b>'' @ [26376]), Rep False 0 None AnyChar, Lit (js ''</div>'')]"

definition parseYearMonth :: "jsstring \<Rightarrow> jsdate \<Rightarrow> nat \<times> nat" where
  "parseYearMonth html fallbackDate =
     (case searchFrom True yearMonthRegex [] html of
        None \<Rightarrow> (fullYear fallbackDate, monthIndex fallbackDate + 1)
      | Some (blockMatch, p, s) \<Rightarrow>
          (case toNumber (capGroup blockMatch 1) of
             None \<Rightarrow> (fullYear fallbackDate, monthIndex fallbackDate + 1)
           | Some year \<Rightarrow>
              (case toNumber (capGroup blockMatch 2) of
                 None \<Rightarrow> (fullYear fallbackDate, monthIndex fallbackDate + 1)
               | Some month \<Rightarrow> (year, month))))"

text \<open>
  \<open>toIsoDate\<close> with \<open>padStart\<close>, and \<open>rsvDateToIso\<close> with its pattern
  \<^verbatim>\<open>/^(\d{4})\/(\d{2})\/(\d{2})$/\<close>.
\<close>

definition padStart :: "nat \<Rightarrow> nat \<Rightarrow> jsstring \<Rightarrow> jsstring" where
  "padStart w c s = replicate (w - length s) c @ s"

definition toIsoDate :: "nat \<Rightarrow> nat \<Rightarrow> nat \<Rightarrow> jsstring" where
  "toIsoDate year month day =
     padStart 4 48 (numToString year) @ js ''-'' @ padStart 2 48 (numToString month) @ js ''-''
       @ padStart 2 48 (numToString day)"

definition rsvRegex :: "rx list" where
  "rsvRegex = [Bol, Cap 1 [Rep True 4 (Some 4) Digit], Lit (js ''/''),
               Cap 2 [Rep True 2 (Some 2) Digit], Lit (js ''/''),
               Cap 3 [Rep True 2 (Some 2) Digit], Eol]"

definition rsvDateToIso :: "jsstring \<Rightarrow> jsstring" where
  "rsvDateToIso raw =
     (case searchFrom False rsvRegex [] raw of
        None \<Rightarrow> []
      | Some (mt, p, s) \<Rightarrow>
          orEmpty (capGroup mt 1) @ js ''-'' @ orEmpty (capGroup mt 2) @ js ''-'' @ orEmpty (capGroup mt 3))"

text \<open>
  The patterns of \<open>parseAvailableDates\<close> (src/index.js):
  \<^verbatim>\<open>/<td\b[^>]*>([\s\S]*?)<\/td>/gi\<close>, \<^verbatim>\<open>/icon_circle\.svg/i\<close>,
  \<^verbatim>\<open>/icon_disabled\.svg/i\<close>, \<^verbatim>\<open>/Available/i\<close>, the pattern of the three ideographs
  U+53D7 U+4ED8 U+4E2D (without the \<open>i\<close> flag),
  \<^verbatim>\<open>/data-date=["'](\d{4}\/\d{2}\/\d{2})["']/gi\<close> and
  \<^verbatim>\<open>/<div class=["']sc_cal_date(?:[^"']*)["']>\s*(?:<a[^>]*>)?(\d{1,2})(?:<\/a>)?\s*<\/div>/i\<close>.
  \<open>dayRegex0\<close> is the day pattern of the earlier variant (src/unnamed/part_000):
  \<^verbatim>\<open>/<div class=["']sc_cal_date(?:[^"']*)["']>(\d{1,2})<\/div>/i\<close>.
\<close>

definition tdRegex :: "rx list" where
  "tdRegex = [Lit (js ''<td''), WordB, Rep True 0 None notGt, Lit (js ''>''),
              Cap 1 [Rep False 0 None AnyChar], Lit (js ''</td>'')]"

definition circleRegex :: "rx list" where "circleRegex = [Lit (js ''icon_circle.svg'')]"

definition disabledRegex :: "rx list" where "disabledRegex = [Lit (js ''icon_disabled.svg'')]"

definition availableRegex :: "rx list" where "availableRegex = [Lit (js ''Available'')]"

definition acceptingRegex :: "rx list" where "acceptingRegex = [Lit [21463, 20184, 20013]]"

definition dataDateRegex :: "rx list" where
  "dataDateRegex =
     [Lit (js ''data-date=''), Cls quotes,
      Cap 1 [Rep True 4 (Some 4) Digit, Lit (js ''/''), Rep True 2 (Some 2) Digit, Lit (js ''/''),
             Rep True 2 (Some 2) Digit],
      Cls quotes]"

definition dayRegex :: "rx list" where
  "dayRegex =
     [Lit (js ''<div class=''), Cls quotes, Lit (js ''sc_cal_date''), Rep True 0 None notQuote,
      Cls quotes, Lit (js ''>''), Rep True 0 None Space,
      Opt [Lit (js ''<a''), Rep True 0 None notGt, Lit (js ''>'')],
      Cap 1 [Rep True 1 (Some 2) Digit], Opt [Lit (js ''</a>'')], Rep True 0 None Space,
      Lit (js ''</div>'')]"

definition dayRegex0 :: "rx list" where
  "dayRegex0 =
     [Lit (js ''<div class=''), Cls quotes, Lit (js ''sc_cal_date''), Rep True 0 None notQuote,
      Cls quotes, Lit (js ''>''), Cap 1 [Rep True 1 (Some 2) Digit], Lit (js ''</div>'')]"

text \<open>
  The body of the loop over the cells. \<open>textDates\<close> is its last part, the detection by
  text, which is the whole body in the earlier variant; it returns the dates pushed for the
  cell. \<open>cellDates\<close> is the body of src/index.js: the test for the circle icon with the
  \<open>data-date\<close> attributes first, then the test for the disabled icon, then the text.
\<close>

definition textDates :: "rx list \<Rightarrow> nat \<Rightarrow> nat \<Rightarrow> jsstring \<Rightarrow> jsstring list" where
  "textDates dayRe year month cell =
     (if \<not> test True availableRegex cell \<and> \<not> test False acceptingRegex cell then []
      else case searchFrom True dayRe [] cell of
             None \<Rightarrow> []
           | Some (dayMatch, p, s) \<Rightarrow>
              (case toNumber (capGroup dayMatch 1) of
                 None \<Rightarrow> []
               | Some day \<Rightarrow> if day < 1 \<or> day > 31 then [] else [toIsoDate year month day]))"

definition cellDates :: "nat \<Rightarrow> nat \<Rightarrow> jsstring \<Rightarrow> jsstring list option" where
  "cellDates year month cell =
     (let rest = (if test True disabledRegex cell then [] else textDates dayRegex year month cell)
      in if test True circleRegex cell
         then (case execAll True dataDateRegex [] cell of
                 None \<Rightarrow> None
               | Some dateMatches \<Rightarrow>
                   if dateMatches \<noteq> []
                   then Some (filter (\<lambda>iso. iso \<noteq> [])
                                (map (\<lambda>mt. rsvDateToIso (orEmpty (capGroup mt 1))) dateMatches))
                   else Some rest)
         else Some rest)"

text \<open>
  The loop itself, over the matches of the cell pattern, with the array \<open>dates\<close>;
  \<open>[...new Set(dates)]\<close>, which keeps the first occurrence of each date in order; and
  \<open>.sort()\<close>, which compares strings by their code units (the order of lists of code
  units). \<open>parseAvailableDates0\<close> is the function of the earlier variant.
\<close>

fun cellsLoop :: "(jsstring \<Rightarrow> jsstring list option) \<Rightarrow> jsstring list \<Rightarrow> captures list \<Rightarrow> jsstring list option" where
  "cellsLoop body dates [] = Some dates"
| "cellsLoop body dates (tdMatch # rest) =
     (case body (orEmpty (capGroup tdMatch 1)) of
        None \<Rightarrow> None
      | Some pushed \<Rightarrow> cellsLoop body (dates @ pushed) rest)"

definition setOrder :: "'a list \<Rightarrow> 'a list" where
  "setOrder xs = foldl (\<lambda>acc x. if x \<in> set acc then acc else acc @ [x]) [] xs"

definition parseAvailableDates :: "jsstring \<Rightarrow> jsdate \<Rightarrow> jsstring list option" where
  "parseAvailableDates html fallbackDate =
     (case parseYearMonth html fallbackDate of (year, month) \<Rightarrow>
        (case execAll True tdRegex [] html of
           None \<Rightarrow> None
         | Some tds \<Rightarrow>
            (case cellsLoop (cellDates year month) [] tds of
               None \<Rightarrow> None
             | Some dates \<Rightarrow> Some (sort (setOrder dates)))))"

definition parseAvailableDates0 :: "jsstring \<Rightarrow> jsdate \<Rightarrow> jsstring list option" where
  "parseAvailableDates0 html fallbackDate =
     (case parseYearMonth html fallbackDate of (year, month) \<Rightarrow>
        (case execAll True tdRegex [] html of
           None \<Rightarrow> None
         | Some tds \<Rightarrow>
            (case cellsLoop (\<lambda>cell. Some (textDates dayRegex0 year month cell)) [] tds of
               None \<Rightarrow> None
             | Some dates \<Rightarrow> Some (sort (setOrder dates)))))"

text \<open>
  \<open>text.replace(/lit/g, rep)\<close> for a literal pattern, and \<open>decodeHtml\<close>.
\<close>

function replaceAll :: "jsstring \<Rightarrow> jsstring \<Rightarrow> jsstring \<Rightarrow> jsstring" where
  "replaceAll (c # cs) rep [] = []"
| "replaceAll (c # cs) rep (x # xs) =
     (if litPrefix False (c # cs) (x # xs)
      then rep @ replaceAll (c # cs) rep (drop (length cs) xs)
      else x # replaceAll (c # cs) rep xs)"
| "replaceAll [] rep s = s"
  by pat_completeness auto
termination
  by (relation "measure (\<lambda>(pat, rep, s). length s)") auto

definition decodeHtml :: "jsstring \<Rightarrow> jsstring" where
  "decodeHtml text =
     trim (replaceAll (js ''&nbsp;'') (js '' '')
          (replaceAll (js ''&#39;'') [39]
          (replaceAll (js ''&quot;'') (js ''\"'')
          (replaceAll (js ''&gt;'') (js ''>'')
          (replaceAll (js ''&lt;'') (js ''<'')
          (replaceAll (js ''&amp;'') (js ''&'') text))))))"

text \<open>
  \<open>stripTags\<close> is \<^verbatim>\<open>text.replace(/<[^>]*>/g, '')\<close>: a \<open><\<close> with a \<open>>\<close> somewhere after it
  is removed together with everything up to the first such \<open>>\<close>. \<open>collapseSpaces\<close> is
  \<^verbatim>\<open>.replace(/\s+/g, ' ')\<close>.
\<close>

function stripTags :: "jsstring \<Rightarrow> jsstring" where
  "stripTags [] = []"
| "stripTags (x # xs) =
     (if x = 60 \<and> 62 \<in> set xs then stripTags (tl (dropWhile (\<lambda>c. c \<noteq> 62) xs))
      else x # stripTags xs)"
  by pat_completeness auto
termination
  by (relation "measure length")
     (auto simp: less_Suc_eq_le intro: le_trans [OF diff_le_self length_dropWhile_le])

function collapseSpaces :: "jsstring \<Rightarrow> jsstring" where
  "collapseSpaces [] = []"
| "collapseSpaces (x # xs) =
     (if isWhiteSpace x then 32 # collapseSpaces (dropWhile isWhiteSpace xs)
      else x # collapseSpaces xs)"
  by pat_completeness auto
termination
  by (relation "measure length") (auto simp: less_Suc_eq_le length_dropWhile_le)

text \<open>
  \<open>parsePlans\<close> and \<open>dedupePlans\<close>, with the pattern
  \<^verbatim>\<open>/<input[^>]*name=["']plan["'][^>]*id=["']plan-(\d+)["'][^>]*>\s*<label[^>]*for=["']plan-\1["'][^>]*>([\s\S]*?)<\/label>/gi\<close>.
  \<open>planStep\<close> is the body of the loop over the matches, \<open>rawPlans\<close> the array \<open>plans\<close>
  before \<open>dedupePlans\<close>; \<open>dedupeStep\<close> is the body of the loop of \<open>dedupePlans\<close> on the
  \<open>Set\<close> of keys and the array \<open>out\<close>.
\<close>

definition plansRegex :: "rx list" where
  "plansRegex =
     [Lit (js ''<input''), Rep True 0 None notGt, Lit (js ''name=''), Cls quotes, Lit (js ''plan''),
      Cls quotes, Rep True 0 None notGt, Lit (js ''id=''), Cls quotes, Lit (js ''plan-''),
      Cap 1 [Rep True 1 None Digit], Cls quotes, Rep True 0 None notGt, Lit (js ''>''),
      Rep True 0 None Space, Lit (js ''<label''), Rep True 0 None notGt, Lit (js ''for=''),
      Cls quotes, Lit (js ''plan-''), Back 1, Cls quotes, Rep True 0 None notGt, Lit (js ''>''),
      Cap 2 [Rep False 0 None AnyChar], Lit (js ''</label>'')]"

definition planStep :: "plan list \<Rightarrow> captures \<Rightarrow> plan list" where
  "planStep plans mt =
     (case toNumber (capGroup mt 1) of
        None \<Rightarrow> plans
      | Some ident \<Rightarrow>
          let labelRaw = trim (collapseSpaces (stripTags (orEmpty (capGroup mt 2))))
          in if labelRaw \<noteq> [] then plans @ [\<lparr>plan_id = ident, label = decodeHtml labelRaw\<rparr>]
             else plans)"

definition dedupeStep :: "jsstring set \<times> plan list \<Rightarrow> plan \<Rightarrow> jsstring set \<times> plan list" where
  "dedupeStep st p =
     (case st of (seen, out) \<Rightarrow>
        let k = numToString (plan_id p) @ js ''|'' @ label p
        in if k \<in> seen then (seen, out) else (insert k seen, out @ [p]))"

definition dedupePlans :: "plan list \<Rightarrow> plan list" where
  "dedupePlans plans = snd (foldl dedupeStep ({}, []) plans)"

definition rawPlans :: "jsstring \<Rightarrow> plan list option" where
  "rawPlans html = map_option (foldl planStep []) (execAll True plansRegex [] html)"

definition parsePlans :: "jsstring \<Rightarrow> plan list option" where
  "parsePlans html = map_option dedupePlans (rawPlans html)"

text \<open>
  \<open>extractInputValue\<close> and \<open>parseSelectedValue\<close>. \<open>escapeRegExp\<close> makes every character
  of the name literal, so the name is a literal item of the pattern
  \<^verbatim>\<open><input[^>]*name=["']NAME["'][^>]*value=["']([^"']*)["'][^>]*>\<close> (flag \<open>i\<close>), and of the
  second pattern, which asks for \<^verbatim>\<open>checked=["']checked["']\<close> after the value.
\<close>

definition inputRegex :: "jsstring \<Rightarrow> rx list" where
  "inputRegex name =
     [Lit (js ''<input''), Rep True 0 None notGt, Lit (js ''name=''), Cls quotes, Lit name,
      Cls quotes, Rep True 0 None notGt, Lit (js ''value=''), Cls quotes,
      Cap 1 [Rep True 0 None notQuote], Cls quotes, Rep True 0 None notGt, Lit (js ''>'')]"

definition checkedRegex :: "jsstring \<Rightarrow> rx list" where
  "checkedRegex name =
     [Lit (js ''<input''), Rep True 0 None notGt, Lit (js ''name=''), Cls quotes, Lit name,
      Cls quotes, Rep True 0 None notGt, Lit (js ''value=''), Cls quotes,
      Cap 1 [Rep True 0 None notQuote], Cls quotes, Rep True 0 None notGt, Lit (js ''checked=''),
      Cls quotes, Lit (js ''checked''), Cls quotes, Rep True 0 None notGt, Lit (js ''>'')]"

definition extractInputValue :: "jsstring \<Rightarrow> jsstring \<Rightarrow> jsstring" where
  "extractInputValue html name =
     (case searchFrom True (inputRegex name) [] html of
        None \<Rightarrow> []
      | Some (mt, p, s) \<Rightarrow> decodeHtml (orEmpty (capGroup mt 1)))"

definition parseSelectedValue :: "jsstring \<Rightarrow> jsstring \<Rightarrow> jsstring" where
  "parseSelectedValue html name =
     (let hidden = extractInputValue html name
      in if hidden \<noteq> [] then hidden
         else (case searchFrom True (checkedRegex name) [] html of
                 None \<Rightarrow> []
               | Some (mt, p, s) \<Rightarrow> decodeHtml (orEmpty (capGroup mt 1))))"

section \<open>Notions used in the statements\<close>

text \<open>
  The values of the \<open>data-date\<close> attributes of a cell, in order; the form
  \<open>YYYY/MM/DD\<close>; and its ISO form, with \<open>-\<close> for \<open>/\<close>.
\<close>

definition dataDates :: "jsstring \<Rightarrow> jsstring list" where
  "dataDates cell =
     (case execAll True dataDateRegex [] cell of
        None \<Rightarrow> []
      | Some dateMatches \<Rightarrow> map (\<lambda>mt. orEmpty (capGroup mt 1)) dateMatches)"

definition rsvShape :: "jsstring \<Rightarrow> bool" where
  "rsvShape d \<longleftrightarrow> length d = 10 \<and> list_all (inClass Digit) (take 4 d) \<and> d ! 4 = 47
      \<and> list_all (inClass Digit) (take 2 (drop 5 d)) \<and> d ! 7 = 47
      \<and> list_all (inClass Digit) (drop 8 d)"

definition isoOfRsv :: "jsstring \<Rightarrow> jsstring" where
  "isoOfRsv d = map (\<lambda>c. if c = 47 then 45 else c) d"

text \<open>
  The cells of a page, and the dates one cell contributes: \<open>cellRule\<close> is the ordered
  rule set of the code, \<open>specCellRule\<close> the rule set in the words of the specification,
  where rule (a) applies to every cell with the available icon.
\<close>

definition cells :: "jsstring \<Rightarrow> jsstring list" where
  "cells html =
     (case execAll True tdRegex [] html of
        None \<Rightarrow> []
      | Some tds \<Rightarrow> map (\<lambda>tdMatch. orEmpty (capGroup tdMatch 1)) tds)"

definition cellRule :: "nat \<Rightarrow> nat \<Rightarrow> jsstring \<Rightarrow> jsstring list" where
  "cellRule year month cell =
     (if test True circleRegex cell \<and> dataDates cell \<noteq> [] then map isoOfRsv (dataDates cell)
      else if test True disabledRegex cell then []
      else textDates dayRegex year month cell)"

definition specCellRule :: "nat \<Rightarrow> nat \<Rightarrow> jsstring \<Rightarrow> jsstring list" where
  "specCellRule year month cell =
     (if test True circleRegex cell then map isoOfRsv (dataDates cell)
      else if test True disabledRegex cell then []
      else textDates dayRegex year month cell)"

text \<open>
  The key \<open>dedupePlans\<close> builds for a plan.
\<close>

definition planKey :: "plan \<Rightarrow> jsstring" where
  "planKey p = numToString (plan_id p) @ js ''|'' @ label p"

text \<open>
  The input elements that \<open>extractInputValue\<close> and \<open>parseSelectedValue\<close> can read, written
  without a matcher. \<open>tailsOf s\<close> lists the texts that start at each position of \<open>s\<close>, from
  the left. \<open>afterLitHere l s\<close> is what follows \<open>l\<close> when \<open>s\<close> starts with \<open>l\<close>, letter
  case apart; \<open>afterQuote s\<close> is what follows a quote at the start of \<open>s\<close>; \<open>skipNoGt s\<close>
  lists what is left of \<open>s\<close> after a run of characters other than \<open>>\<close>, the longest run
  first. \<open>quotedValue s\<close> is the text of \<open>s\<close> up to its first quote, with what follows that
  quote.
\<close>

fun tailsOf :: "jsstring \<Rightarrow> jsstring list" where
  "tailsOf [] = [[]]"
| "tailsOf (x # xs) = (x # xs) # tailsOf xs"

definition afterLitHere :: "jsstring \<Rightarrow> jsstring \<Rightarrow> jsstring list" where
  "afterLitHere l s = (if litPrefix True l s then [drop (length l) s] else [])"

definition afterQuote :: "jsstring \<Rightarrow> jsstring list" where
  "afterQuote s = (case s of [] \<Rightarrow> [] | x # xs \<Rightarrow> if inClass quotes x then [xs] else [])"

fun skipNoGt :: "jsstring \<Rightarrow> jsstring list" where
  "skipNoGt [] = [[]]"
| "skipNoGt (x # xs) = (if inClass notGt x then skipNoGt xs else []) @ [x # xs]"

definition quotedValue :: "jsstring \<Rightarrow> (jsstring \<times> jsstring) list" where
  "quotedValue s = [(takeWhile (inClass notQuote) s, r). r \<leftarrow> afterQuote (dropWhile (inClass notQuote) s)]"

text \<open>
  \<open>valueAttrs name html\<close>: for each place of the page that reads \<open><input\<close>, then characters
  other than \<open>>\<close>, then \<open>name=\<close>, a quote, the name and a quote, then characters other
  than \<open>>\<close>, then \<open>value=\<close>, a quote, a text \<open>v\<close> without quotes and a quote: the pair of
  \<open>v\<close> and of what follows. \<open>tagEnd s\<close> is not empty when the tag is closed by a \<open>>\<close> in
  \<open>s\<close>, and \<open>checkedEnd s\<close> when \<open>checked=\<close>, a quote, \<open>checked\<close> and a quote come
  before that \<open>>\<close>. \<open>inputTagValues\<close> and \<open>checkedTagValues\<close> list the values \<open>v\<close> of the
  input elements of this form: the elements from left to right and, in one element, the
  later \<open>name=\<close> and the later \<open>value=\<close> first.
\<close>

definition valueAttrs :: "jsstring \<Rightarrow> jsstring \<Rightarrow> (jsstring \<times> jsstring) list" where
  "valueAttrs name html =
     [vr. t \<leftarrow> tailsOf html, a \<leftarrow> afterLitHere (js ''<input'') t, b \<leftarrow> skipNoGt a,
          c \<leftarrow> afterLitHere (js ''name='') b, d \<leftarrow> afterQuote c, e \<leftarrow> afterLitHere name d,
          f \<leftarrow> afterQuote e, g \<leftarrow> skipNoGt f, h \<leftarrow> afterLitHere (js ''value='') g,
          i \<leftarrow> afterQuote h, vr \<leftarrow> quotedValue i]"

definition tagEnd :: "jsstring \<Rightarrow> jsstring list" where
  "tagEnd s = [y. x \<leftarrow> skipNoGt s, y \<leftarrow> afterLitHere (js ''>'') x]"

definition checkedEnd :: "jsstring \<Rightarrow> jsstring list" where
  "checkedEnd s =
     [y. a \<leftarrow> skipNoGt s, b \<leftarrow> afterLitHere (js ''checked='') a, c \<leftarrow> afterQuote b,
         d \<leftarrow> afterLitHere (js ''checked'') c, e \<leftarrow> afterQuote d, y \<leftarrow> tagEnd e]"

definition inputTagValues :: "jsstring \<Rightarrow> jsstring \<Rightarrow> jsstring list" where
  "inputTagValues name html = [fst vr. vr \<leftarrow> valueAttrs name html, y \<leftarrow> tagEnd (snd vr)]"

definition checkedTagValues :: "jsstring \<Rightarrow> jsstring \<Rightarrow> jsstring list" where
  "checkedTagValues name html = [fst vr. vr \<leftarrow> valueAttrs name html, y \<leftarrow> checkedEnd (snd vr)]"

text \<open>
  For the proofs: \<open>firstOf f xs\<close> is the first result that \<open>f\<close> gives on the elements of
  \<open>xs\<close>, and \<open>specOf k V\<close> says that matching the items \<open>k\<close> on \<open>s\<close> adds the captures
  \<open>V s\<close>, whatever came before.
\<close>

primrec firstOf :: "('a \<Rightarrow> 'b option) \<Rightarrow> 'a list \<Rightarrow> 'b option" where
  "firstOf f [] = None"
| "firstOf f (x # xs) = (case f x of Some r \<Rightarrow> Some r | None \<Rightarrow> firstOf f xs)"

definition specOf :: "rx list \<Rightarrow> (jsstring \<Rightarrow> captures option) \<Rightarrow> bool" where
  "specOf k V \<longleftrightarrow>
     (\<forall>p s caps. map_option fst (matchAt True k p s caps) = map_option (\<lambda>c. c @ caps) (V s))"
section \<open>Facts about the string operations\<close>

lemma trim_Nil [simp]: "trim [] = []" by (simp add: trim_def)

lemma dropWhile_all_iff: "(\<forall>x\<in>set (dropWhile P s). P x) \<longleftrightarrow> (\<forall>x\<in>set s. P x)"
proof (cases "dropWhile P s = []")
  case True
  then show ?thesis by (auto simp: dropWhile_eq_Nil_conv dest: set_dropWhileD)
next
  case False
  then have "\<not> P (hd (dropWhile P s))" by (rule hd_dropWhile)
  moreover have "hd (dropWhile P s) \<in> set (dropWhile P s)" using False by simp
  ultimately have "\<not> (\<forall>x\<in>set (dropWhile P s). P x)" by blast
  moreover have "\<not> (\<forall>x\<in>set s. P x)" using False by (simp add: dropWhile_eq_Nil_conv)
  ultimately show ?thesis by blast
qed

lemma trim_eq_Nil: "trim s = [] \<longleftrightarrow> (\<forall>x\<in>set s. isWhiteSpace x)"
  by (simp add: trim_def dropWhile_eq_Nil_conv dropWhile_all_iff)

lemma trim_ws_prefix: "\<forall>x\<in>set w. isWhiteSpace x \<Longrightarrow> trim (w @ s) = trim s"
  by (simp add: trim_def dropWhile_append2)

lemma trim_ws_suffix:
  assumes "\<forall>x\<in>set w. isWhiteSpace x"
  shows "trim (s @ w) = trim s"
proof (cases "\<forall>x\<in>set s. isWhiteSpace x")
  case True
  then have "trim (s @ w) = []" using assms by (auto simp: trim_eq_Nil)
  moreover have "trim s = []" using True by (simp add: trim_eq_Nil)
  ultimately show ?thesis by simp
next
  case False
  then have "dropWhile isWhiteSpace (s @ w) = dropWhile isWhiteSpace s @ w"
    by (auto simp: dropWhile_append1)
  moreover have "dropWhile isWhiteSpace (rev w @ rev (dropWhile isWhiteSpace s))
      = dropWhile isWhiteSpace (rev (dropWhile isWhiteSpace s))"
    by (rule dropWhile_append2) (use assms in auto)
  ultimately show ?thesis by (simp add: trim_def)
qed

lemma trim_decomp:
  "\<exists>a b. s = a @ trim s @ b \<and> (\<forall>x\<in>set a. isWhiteSpace x) \<and> (\<forall>x\<in>set b. isWhiteSpace x)"
proof -
  let ?a = "takeWhile isWhiteSpace s"
  let ?r = "dropWhile isWhiteSpace s"
  let ?b = "rev (takeWhile isWhiteSpace (rev ?r))"
  have "rev (takeWhile isWhiteSpace (rev ?r) @ dropWhile isWhiteSpace (rev ?r)) = rev (rev ?r)"
    by (simp only: takeWhile_dropWhile_id)
  then have "trim s @ ?b = ?r" by (simp only: rev_append rev_rev_ident trim_def)
  then have "?r = trim s @ ?b" by simp
  moreover have "s = ?a @ ?r" by simp
  ultimately have "s = ?a @ trim s @ ?b" by simp
  moreover have "\<forall>x\<in>set ?a. isWhiteSpace x" by (auto dest: set_takeWhileD)
  moreover have "\<forall>x\<in>set ?b. isWhiteSpace x" by (auto dest: set_takeWhileD)
  ultimately show ?thesis by blast
qed

lemma trim_hd: "trim s \<noteq> [] \<Longrightarrow> \<not> isWhiteSpace (hd (trim s))"
proof -
  assume ne: "trim s \<noteq> []"
  let ?r = "dropWhile isWhiteSpace s"
  let ?t = "dropWhile isWhiteSpace (rev ?r)"
  have t: "?t \<noteq> []" using ne by (simp add: trim_def)
  have r: "?r \<noteq> []"
  proof
    assume e: "?r = []"
    have "?t = []" unfolding e by simp
    with t show False by blast
  qed
  have "rev (takeWhile isWhiteSpace (rev ?r) @ ?t) = rev (rev ?r)"
    by (simp only: takeWhile_dropWhile_id)
  then have "rev ?t @ rev (takeWhile isWhiteSpace (rev ?r)) = ?r"
    by (simp only: rev_append rev_rev_ident)
  moreover have "rev ?t \<noteq> []" using t by simp
  ultimately have "hd ?r = hd (rev ?t)" by (metis hd_append2)
  moreover have "\<not> isWhiteSpace (hd ?r)" using r by (rule hd_dropWhile)
  ultimately show ?thesis by (simp add: trim_def)
qed

lemma trim_idem: "trim (trim s) = trim s"
proof -
  obtain a b where s: "s = a @ trim s @ b" and a: "\<forall>x\<in>set a. isWhiteSpace x" and b: "\<forall>x\<in>set b. isWhiteSpace x"
    using trim_decomp by blast
  have "trim s = trim (a @ (trim s @ b))" using s by simp
  also have "\<dots> = trim (trim s @ b)" using a by (rule trim_ws_prefix)
  also have "\<dots> = trim (trim s)" using b by (rule trim_ws_suffix)
  finally show ?thesis by simp
qed


section \<open>The cookie merge\<close>

lemma not_ws_61: "\<not> isWhiteSpace 61" by (simp add: isWhiteSpace_def)

lemma cookieStep_cookiePair:
  "cookieStep mp part = (case cookiePair part of None \<Rightarrow> mp | Some (k, v) \<Rightarrow> AList.update k v mp)"
proof -
  let ?P = "\<lambda>x::nat. x \<noteq> 61"
  obtain a b where part: "part = a @ trim part @ b"
    and a: "\<forall>x\<in>set a. isWhiteSpace x" and b: "\<forall>x\<in>set b. isWhiteSpace x"
    using trim_decomp by blast
  define t where "t = trim part"
  have part': "part = a @ t @ b" using part by (simp add: t_def)
  have a61: "\<forall>x\<in>set a. ?P x" using a not_ws_61 by auto
  have b61: "\<forall>x\<in>set b. ?P x" using b not_ws_61 by auto
  have mem: "61 \<in> set part \<longleftrightarrow> 61 \<in> set t"
  proof -
    have "set part = set a \<union> set t \<union> set b" by (subst part') auto
    then show ?thesis using a61 b61 by auto
  qed
  show ?thesis
  proof (cases "61 \<in> set t")
    case False
    then have "cookiePair part = None" using mem by (simp add: cookiePair_def)
    moreover have "cookieStep mp part = mp"
      using False by (simp add: cookieStep_def Let_def indexOf_def t_def [symmetric])
    ultimately show ?thesis by simp
  next
    case True
    then have tne: "t \<noteq> []" by auto
    let ?K = "takeWhile ?P t"
    let ?V = "tl (dropWhile ?P t)"
    have dne: "dropWhile ?P t \<noteq> []" using True by (simp add: dropWhile_eq_Nil_conv)
    have tk: "takeWhile ?P part = a @ ?K"
    proof -
      have "takeWhile ?P (t @ b) = ?K" using True by (simp add: takeWhile_append1)
      then show ?thesis using a61 by (subst part') (simp add: takeWhile_append2)
    qed
    have dr: "tl (dropWhile ?P part) = ?V @ b"
    proof -
      have "dropWhile ?P (t @ b) = dropWhile ?P t @ b" using True by (simp add: dropWhile_append1)
      then have "dropWhile ?P part = dropWhile ?P t @ b"
        using a61 by (subst part') (simp add: dropWhile_append2)
      then show ?thesis using dne by simp
    qed
    have k1: "trim (takeWhile ?P part) = trim ?K" unfolding tk using a by (rule trim_ws_prefix)
    have v1: "trim (tl (dropWhile ?P part)) = trim ?V" unfolding dr using b by (rule trim_ws_suffix)
    have tk2: "take (length ?K) t = ?K" by (rule takeWhile_eq_take [symmetric])
    have dr2: "drop (Suc (length ?K)) t = ?V" by (simp add: dropWhile_eq_drop drop_Suc tl_drop)
    have kk: "trim ?K = [] \<longleftrightarrow> ?K = []"
    proof
      assume e: "trim ?K = []"
      show "?K = []"
      proof (rule ccontr)
        assume ne: "?K \<noteq> []"
        then have "hd ?K = hd t" by (cases t) (auto split: if_splits)
        moreover have "\<not> isWhiteSpace (hd t)" using tne trim_hd [of part] by (simp add: t_def)
        moreover have "hd ?K \<in> set ?K" using ne by simp
        ultimately show False using e by (auto simp: trim_eq_Nil)
      qed
    qed simp
    show ?thesis
    proof (cases "?K = []")
      case K: True
      then have "cookiePair part = None" using mem True k1 by (simp add: cookiePair_def Let_def)
      moreover have "cookieStep mp part = mp"
        using K True tne by (simp add: cookieStep_def Let_def indexOf_def t_def [symmetric])
      ultimately show ?thesis by simp
    next
      case K: False
      then have "cookiePair part = Some (trim ?K, trim ?V)"
        using mem True k1 v1 kk by (simp add: cookiePair_def Let_def)
      moreover have "cookieStep mp part = AList.update (trim ?K) (trim ?V) mp"
        using K True tne tk2 dr2 by (simp add: cookieStep_def Let_def indexOf_def t_def [symmetric])
      ultimately show ?thesis by simp
    qed
  qed
qed

lemma cookiePairs_Cons:
  "cookiePairs (seg # segs) = (case cookiePair seg of None \<Rightarrow> cookiePairs segs | Some p \<Rightarrow> p # cookiePairs segs)"
  by (simp add: cookiePairs_def map_filter_simps split: option.splits)

lemma cookiePairs_append: "cookiePairs (xs @ ys) = cookiePairs xs @ cookiePairs ys"
  by (induction xs) (simp_all add: cookiePairs_Cons cookiePairs_def map_filter_simps split: option.splits)

lemma foldl_cookieStep_map_of:
  "map_of (foldl cookieStep mp segs) = map_of mp ++ map_of (rev (cookiePairs segs))"
proof (induction segs arbitrary: mp)
  case Nil
  then show ?case by (simp add: cookiePairs_def map_filter_simps)
next
  case (Cons seg segs)
  show ?case
  proof (cases "cookiePair seg")
    case None
    then have "cookieStep mp seg = mp" by (simp add: cookieStep_cookiePair)
    then show ?thesis using None Cons.IH [of mp] by (simp add: cookiePairs_Cons)
  next
    case (Some p)
    obtain k v where p: "p = (k, v)" by (cases p)
    have st: "cookieStep mp seg = AList.update k v mp"
      using Some p by (simp add: cookieStep_cookiePair)
    have "map_of (foldl cookieStep mp (seg # segs))
        = (map_of mp)(k \<mapsto> v) ++ map_of (rev (cookiePairs segs))"
      by (simp only: foldl.simps st Cons.IH [of "AList.update k v mp"] update_conv')
    also have "\<dots> = map_of mp ++ map_of (rev (cookiePairs (seg # segs)))"
      using Some p by (simp add: cookiePairs_Cons map_add_upd_left fun_eq_iff map_add_def split: option.splits)
    finally show ?thesis .
  qed
qed

lemma foldl_cookieStep_distinct:
  "distinct (map fst mp) \<Longrightarrow> distinct (map fst (foldl cookieStep mp segs))"
proof (induction segs arbitrary: mp)
  case Nil
  then show ?case by simp
next
  case (Cons seg segs)
  have "distinct (map fst (cookieStep mp seg))"
    using Cons.prems by (cases "cookiePair seg") (auto simp: cookieStep_cookiePair distinct_update)
  then show ?case using Cons.IH by simp
qed

lemma splitOn_ne [simp]: "splitOn c s \<noteq> []"
  by (induction s) (auto split: list.splits)

lemma splitOn_append: "splitOn c (a @ c # b) = splitOn c a @ splitOn c b"
  by (induction a) (auto split: list.splits)

lemma cookiePair_space: "cookiePair (32 # seg) = cookiePair seg"
proof -
  have ws: "\<forall>x\<in>set [32]. isWhiteSpace x" by (simp add: isWhiteSpace_def)
  have "trim (32 # takeWhile (\<lambda>x. x \<noteq> 61) seg) = trim (takeWhile (\<lambda>x. x \<noteq> 61) seg)"
    using trim_ws_prefix [OF ws] by simp
  then show ?thesis by (simp add: cookiePair_def)
qed

lemma cookiePairs_space: "cookiePairs (splitOn 59 (32 # s)) = cookiePairs (splitOn 59 s)"
proof (cases "splitOn 59 s")
  case Nil
  then show ?thesis by simp
next
  case (Cons y ys)
  then show ?thesis by (simp add: cookiePairs_Cons cookiePair_space)
qed

text \<open>
  Claim C7. For every pair of cookie header strings, the merged map sends a key to the value
  of its last well-formed \<open>key=value\<close> segment, the segments of the new header coming
  after those of the existing one (so a new value wins on collision); keys are compared
  exactly (case-sensitively) and occur once; and a segment contributes nothing exactly when
  it has no \<open>=\<close> or its key is blank.
\<close>

theorem mergeCookieHeaders_later_wins:
  "map_of (mergeCookieMap existingCookie newCookie)
     = map_of (rev (cookiePairs (splitOn 59 existingCookie))) ++ map_of (rev (cookiePairs (splitOn 59 newCookie)))
   \<and> distinct (map fst (mergeCookieMap existingCookie newCookie))
   \<and> (\<forall>seg. cookiePair seg = None \<longleftrightarrow> 61 \<notin> set seg \<or> trim (takeWhile (\<lambda>x. x \<noteq> 61) seg) = [])"
proof (intro conjI allI)
  have "splitOn 59 (existingCookie @ js ''; '' @ newCookie)
      = splitOn 59 existingCookie @ splitOn 59 (32 # newCookie)"
    using splitOn_append [of 59 existingCookie "32 # newCookie"] by (simp add: js_def del: splitOn.simps)
  then show "map_of (mergeCookieMap existingCookie newCookie)
     = map_of (rev (cookiePairs (splitOn 59 existingCookie))) ++ map_of (rev (cookiePairs (splitOn 59 newCookie)))"
    by (simp add: mergeCookieMap_def foldl_cookieStep_map_of cookiePairs_append cookiePairs_space del: splitOn.simps)
  show "distinct (map fst (mergeCookieMap existingCookie newCookie))"
    by (simp add: mergeCookieMap_def foldl_cookieStep_distinct)
  show "cookiePair seg = None \<longleftrightarrow> 61 \<notin> set seg \<or> trim (takeWhile (\<lambda>x. x \<noteq> 61) seg) = []" for seg
    by (simp add: cookiePair_def Let_def)
qed

theorem mergeCookieHeaders_later_wins_witness:
  "map_of (mergeCookieMap (js ''a=1; B=2; junk; =x'') (js ''a=3; b = 4 ;c='')) (js ''a'') = Some (js ''3'')
   \<and> map_of (mergeCookieMap (js ''a=1; B=2; junk; =x'') (js ''a=3; b = 4 ;c='')) (js ''B'') = Some (js ''2'')
   \<and> map_of (mergeCookieMap (js ''a=1; B=2; junk; =x'') (js ''a=3; b = 4 ;c='')) (js ''b'') = Some (js ''4'')
   \<and> map_of (mergeCookieMap (js ''a=1; B=2; junk; =x'') (js ''a=3; b = 4 ;c='')) (js ''junk'') = None
   \<and> cookiePair (js ''junk'') = None \<and> cookiePair (js '' =x'') = None
   \<and> mergeCookieHeaders (js ''a=1; B=2; junk; =x'') (js ''a=3; b = 4 ;c='') = js ''a=3; B=2; b=4; c=''"
proof -
  let ?e = "js ''a=1; B=2; junk; =x''" and ?n = "js ''a=3; b = 4 ;c=''"
  let ?m = "map_of (rev (cookiePairs (splitOn 59 ?e))) ++ map_of (rev (cookiePairs (splitOn 59 ?n)))"
  note t = mergeCookieHeaders_later_wins [of ?e ?n]
  have m: "map_of (mergeCookieMap ?e ?n) = ?m" using t by blast
  have e: "cookiePairs (splitOn 59 ?e) = [(js ''a'', js ''1''), (js ''B'', js ''2'')]"
    by (simp add: cookiePairs_def map_filter_simps cookiePair_def js_def trim_def isWhiteSpace_def)
  have n: "cookiePairs (splitOn 59 ?n) = [(js ''a'', js ''3''), (js ''b'', js ''4''), (js ''c'', [])]"
    by (simp add: cookiePairs_def map_filter_simps cookiePair_def js_def trim_def isWhiteSpace_def)
  have 1: "?m (js ''a'') = Some (js ''3'')" unfolding e n by (simp add: js_def)
  have 2: "?m (js ''B'') = Some (js ''2'')" unfolding e n by (simp add: js_def map_add_def)
  have 3: "?m (js ''b'') = Some (js ''4'')" unfolding e n by (simp add: js_def)
  have 4: "?m (js ''junk'') = None" unfolding e n by (simp add: js_def map_add_def)
  have 5: "cookiePair (js ''junk'') = None" by (simp add: cookiePair_def js_def)
  have 6: "cookiePair (js '' =x'') = None"
    by (simp add: cookiePair_def js_def trim_def isWhiteSpace_def)
  have 7: "mergeCookieHeaders ?e ?n = js ''a=3; B=2; b=4; c=''"
    by (simp add: mergeCookieHeaders_def mergeCookieMap_def cookieStep_def indexOf_def js_def
        trim_def isWhiteSpace_def)
  show ?thesis unfolding m using 1 2 3 4 5 6 7 by blast
qed

section \<open>The message splitter\<close>

lemma hardSplit_total:
  assumes "0 < maxLen"
  shows "\<exists>cs r. hardSplit maxLen rest = Some (cs, r) \<and> (\<forall>c\<in>set cs. length c = maxLen)
           \<and> length r \<le> maxLen \<and> concat cs @ r = rest \<and> (rest \<noteq> [] \<longrightarrow> r \<noteq> [])"
proof (induction rest rule: length_induct)
  case (1 rest)
  show ?case
  proof (cases "length rest > maxLen")
    case False
    then show ?thesis by (subst hardSplit.simps) simp
  next
    case True
    then have "length (drop maxLen rest) < length rest" using assms by simp
    then obtain cs r where ih: "hardSplit maxLen (drop maxLen rest) = Some (cs, r)"
      "\<forall>c\<in>set cs. length c = maxLen" "length r \<le> maxLen" "concat cs @ r = drop maxLen rest"
      "drop maxLen rest \<noteq> [] \<longrightarrow> r \<noteq> []"
      using 1 by blast
    have "hardSplit maxLen rest = Some (take maxLen rest # cs, r)"
      using True ih(1) by (subst hardSplit.simps) simp
    moreover have "\<forall>c\<in>set (take maxLen rest # cs). length c = maxLen"
      using True ih(2) by simp
    moreover have "concat (take maxLen rest # cs) @ r = rest" using ih(4) by simp
    moreover have "r \<noteq> []" using ih(5) True by simp
    ultimately show ?thesis using ih(3) by blast
  qed
qed

lemma noNl_append [simp]: "noNl (a @ b) = noNl a @ noNl b" by (simp add: noNl_def)
lemma noNl_Nil [simp]: "noNl [] = []" by (simp add: noNl_def)
lemma noNl_nl [simp]: "noNl (10 # s) = noNl s" by (simp add: noNl_def)

lemma chunksOk_append [simp]: "chunksOk m (a @ b) \<longleftrightarrow> chunksOk m a \<and> chunksOk m b"
  by (auto simp: chunksOk_def)

lemma lineStep_inv:
  assumes m: "0 < maxLen" and ok: "chunksOk maxLen chunks" and cur: "length current \<le> maxLen"
  shows "\<exists>chunks' current'. lineStep maxLen (chunks, current) line = Some (chunks', current')
           \<and> chunksOk maxLen chunks' \<and> length current' \<le> maxLen
           \<and> noNl (concat chunks' @ current') = noNl (concat chunks @ current) @ noNl line"
proof -
  let ?cand = "if current \<noteq> [] then current @ [10] @ line else line"
  let ?chunks1 = "if current \<noteq> [] then chunks @ [current] else chunks"
  have ok1: "chunksOk maxLen ?chunks1" using ok cur by (simp add: chunksOk_def)
  have c1: "concat ?chunks1 = concat chunks @ current" by simp
  show ?thesis
  proof (cases "length ?cand \<le> maxLen")
    case True
    then have "lineStep maxLen (chunks, current) line = Some (chunks, ?cand)"
      by (simp add: lineStep_def)
    moreover have "noNl (concat chunks @ ?cand) = noNl (concat chunks @ current) @ noNl line"
      by simp
    ultimately show ?thesis using ok True by blast
  next
    case False
    show ?thesis
    proof (cases "length line \<le> maxLen")
      case True
      have "lineStep maxLen (chunks, current) line = Some (?chunks1, line)"
        using False True by (simp add: lineStep_def)
      moreover have "noNl (concat ?chunks1 @ line) = noNl (concat chunks @ current) @ noNl line"
        by simp
      ultimately show ?thesis using ok1 True by blast
    next
      case long: False
      obtain cs r where hs: "hardSplit maxLen line = Some (cs, r)"
        and cs: "\<forall>c\<in>set cs. length c = maxLen" and r: "length r \<le> maxLen"
        and cat: "concat cs @ r = line" and "line \<noteq> [] \<longrightarrow> r \<noteq> []"
        using hardSplit_total [OF m, of line] by (elim exE conjE) (rule that; assumption)
      have "lineStep maxLen (chunks, current) line = Some (?chunks1 @ cs, r)"
        using False long hs by (simp add: lineStep_def)
      moreover have "chunksOk maxLen (?chunks1 @ cs)"
      proof -
        have "chunksOk maxLen cs"
          unfolding chunksOk_def
        proof (intro ballI conjI)
          fix c assume "c \<in> set cs"
          then have l: "length c = maxLen" using cs by blast
          show "c \<noteq> []" using l m by auto
          show "length c \<le> maxLen" using l by simp
        qed
        then show ?thesis using ok1 by (simp only: chunksOk_append)
      qed
      moreover have "noNl (concat (?chunks1 @ cs) @ r) = noNl (concat chunks @ current) @ noNl line"
        using cat c1 by (metis append.assoc concat_append noNl_append)
      ultimately show ?thesis using r by blast
    qed
  qed
qed

lemma linesLoop_inv:
  assumes m: "0 < maxLen"
  shows "chunksOk maxLen chunks \<Longrightarrow> length current \<le> maxLen \<Longrightarrow>
         \<exists>chunks' current'. linesLoop maxLen (chunks, current) lines = Some (chunks', current')
           \<and> chunksOk maxLen chunks' \<and> length current' \<le> maxLen
           \<and> noNl (concat chunks' @ current') = noNl (concat chunks @ current) @ noNl (concat lines)"
proof (induction lines arbitrary: chunks current)
  case Nil
  then show ?case by simp
next
  case (Cons line lines)
  obtain c1 u1 where s: "lineStep maxLen (chunks, current) line = Some (c1, u1)"
    and ok: "chunksOk maxLen c1" and le: "length u1 \<le> maxLen"
    and eq: "noNl (concat c1 @ u1) = noNl (concat chunks @ current) @ noNl line"
    using lineStep_inv [OF m Cons.prems, of line] by (elim exE conjE) (rule that; assumption)
  obtain c2 u2 where l: "linesLoop maxLen (c1, u1) lines = Some (c2, u2)"
    and ok2: "chunksOk maxLen c2" and le2: "length u2 \<le> maxLen"
    and eq2: "noNl (concat c2 @ u2) = noNl (concat c1 @ u1) @ noNl (concat lines)"
    using Cons.IH [OF ok le] by (elim exE conjE) (rule that; assumption)
  have "linesLoop maxLen (chunks, current) (line # lines) = Some (c2, u2)" using s l by simp
  moreover have "noNl (concat c2 @ u2) = noNl (concat chunks @ current) @ noNl (concat (line # lines))"
    using eq eq2 by simp
  ultimately show ?case using ok2 le2 by blast
qed

lemma concat_splitOn: "concat (splitOn c s) = filter (\<lambda>x. x \<noteq> c) s"
  by (induction s) (auto split: list.splits)

lemma joinWith_splitOn: "joinWith [c] (splitOn c s) = s"
proof (induction s)
  case Nil
  then show ?case by simp
next
  case (Cons x s)
  obtain y ys where sp: "splitOn c s = y # ys" by (cases "splitOn c s") simp_all
  show ?case
  proof (cases "x = c")
    case True
    then show ?thesis using Cons sp by simp
  next
    case False
    then show ?thesis using Cons sp by (cases ys) simp_all
  qed
qed

lemma length_concat_le:
  "\<forall>c\<in>set chunks. length c \<le> m \<Longrightarrow> length (concat chunks) \<le> length chunks * m"
  by (induction chunks) auto


lemma joinWith_append:
  "xs \<noteq> [] \<Longrightarrow> ys \<noteq> [] \<Longrightarrow> joinWith sep (xs @ ys) = joinWith sep xs @ sep @ joinWith sep ys"
proof (induction xs)
  case Nil
  then show ?case by simp
next
  case (Cons x xs)
  show ?case
  proof (cases xs)
    case Nil
    then show ?thesis using Cons.prems by (cases ys) simp_all
  next
    case (Cons z zs)
    then show ?thesis using Cons.IH Cons.prems by simp
  qed
qed

lemma joinWith_snoc_ext:
  "joinWith sep (chunks @ [a @ sep @ b]) = joinWith sep (chunks @ [a]) @ sep @ b"
proof (cases "chunks = []")
  case True
  then show ?thesis by simp
next
  case False
  then show ?thesis by (simp add: joinWith_append)
qed

lemma lineStep_exact:
  assumes l: "line \<noteq> []" "length line \<le> maxLen" and cur: "current \<noteq> []"
  shows "\<exists>chunks' current'. lineStep maxLen (chunks, current) line = Some (chunks', current')
           \<and> current' \<noteq> []
           \<and> joinWith [10] (chunks' @ [current']) = joinWith [10] (chunks @ [current]) @ [10] @ line"
proof (cases "length (current @ [10] @ line) \<le> maxLen")
  case True
  then have "lineStep maxLen (chunks, current) line = Some (chunks, current @ [10] @ line)"
    using cur by (simp add: lineStep_def)
  moreover have "joinWith [10] (chunks @ [current @ [10] @ line])
      = joinWith [10] (chunks @ [current]) @ [10] @ line"
    by (rule joinWith_snoc_ext)
  ultimately show ?thesis by (intro exI conjI) (assumption, simp, assumption)
next
  case False
  then have "lineStep maxLen (chunks, current) line = Some (chunks @ [current], line)"
    using cur l by (simp add: lineStep_def)
  moreover have "joinWith [10] ((chunks @ [current]) @ [line])
      = joinWith [10] (chunks @ [current]) @ [10] @ line"
    by (simp add: joinWith_append del: append_assoc)
  ultimately show ?thesis using l(1) by (intro exI conjI) (assumption, assumption, assumption)
qed

lemma linesLoop_exact:
  "\<forall>l\<in>set lines. l \<noteq> [] \<and> length l \<le> maxLen \<Longrightarrow> current \<noteq> [] \<Longrightarrow>
     \<exists>chunks' current'. linesLoop maxLen (chunks, current) lines = Some (chunks', current')
        \<and> current' \<noteq> []
        \<and> joinWith [10] (chunks' @ [current']) = joinWith [10] ((chunks @ [current]) @ lines)"
proof (induction lines arbitrary: chunks current)
  case Nil
  then show ?case by simp
next
  case (Cons line lines)
  have l: "line \<noteq> []" "length line \<le> maxLen" using Cons.prems(1) by simp_all
  have ls: "\<forall>l\<in>set lines. l \<noteq> [] \<and> length l \<le> maxLen" using Cons.prems(1) by simp
  obtain c1 u1 where s: "lineStep maxLen (chunks, current) line = Some (c1, u1)"
    and u1: "u1 \<noteq> []"
    and j1: "joinWith [10] (c1 @ [u1]) = joinWith [10] (chunks @ [current]) @ [10] @ line"
    using lineStep_exact [OF l Cons.prems(2), of chunks] by (elim exE conjE) (rule that; assumption)
  obtain c2 u2 where s2: "linesLoop maxLen (c1, u1) lines = Some (c2, u2)"
    and u2: "u2 \<noteq> []"
    and j2: "joinWith [10] (c2 @ [u2]) = joinWith [10] ((c1 @ [u1]) @ lines)"
    using Cons.IH [OF ls u1, of c1] by (elim exE conjE) (rule that; assumption)
  have "linesLoop maxLen (chunks, current) (line # lines) = Some (c2, u2)" using s s2 by simp
  moreover have "joinWith [10] (c2 @ [u2]) = joinWith [10] ((chunks @ [current]) @ line # lines)"
  proof (cases "lines = []")
    case True
    then show ?thesis using j2 j1 by (simp add: joinWith_append del: append_assoc)
  next
    case False
    have "joinWith [10] ((c1 @ [u1]) @ lines) = joinWith [10] (c1 @ [u1]) @ [10] @ joinWith [10] lines"
      using False by (simp add: joinWith_append del: append_assoc)
    moreover have "joinWith [10] ((chunks @ [current]) @ line # lines)
        = joinWith [10] (chunks @ [current]) @ [10] @ joinWith [10] (line # lines)"
      by (simp add: joinWith_append del: append_assoc)
    moreover have "joinWith [10] (line # lines) = line @ [10] @ joinWith [10] lines"
      using False by (cases lines) simp_all
    ultimately show ?thesis using j2 j1 by simp
  qed
  ultimately show ?case using u2 by (intro exI conjI) (assumption, assumption, assumption)
qed

lemma two_chunks:
  assumes "\<forall>c\<in>set chunks. length c \<le> m" and "m < length (concat chunks)"
  shows "2 \<le> length chunks"
proof (rule ccontr)
  assume "\<not> 2 \<le> length chunks"
  then consider "chunks = []" | c where "chunks = [c]"
    by (cases chunks; cases "tl chunks") auto
  then show False using assms by cases auto
qed

lemma splitOn_single: "c \<notin> set s \<Longrightarrow> splitOn c s = [s]"
  by (induction s) auto

lemma weave_append [simp]: "weave (a @ b) = weave a @ weave b"
  by (simp add: weave_def)

lemma weave_Nil [simp]: "weave [] = []"
  by (simp add: weave_def)

lemma weave_single [simp]: "weave [(c, g)] = c @ g"
  by (simp add: weave_def)

lemma weave_pieces [simp]: "weave (map (\<lambda>c. (c, [])) cs) = concat cs"
  by (induction cs) (simp_all add: weave_def)

lemma nls_simps [simp]: "nls []" "nls [10]" "nls (a @ b) \<longleftrightarrow> nls a \<and> nls b"
  by (simp_all add: nls_def)

lemma gapOk_nl [simp]: "gapOk maxLen (c, [10])"
  by (simp add: gapOk_def)

lemma gapOk_pieces:
  "\<forall>c\<in>set cs. length c = maxLen \<Longrightarrow> list_all (gapOk maxLen) (map (\<lambda>c. (c, [])) cs)"
  by (induction cs) (simp_all add: gapOk_def)

lemma reconI:
  assumes "map fst ps = chunks" "nls n0" "list_all (gapOk maxLen) ps"
    "H \<longrightarrow> list_all (\<lambda>cg. snd cg \<noteq> []) ps"
    "T = n0 @ weave ps @ (if current = [] then [] else current @ [10])"
    "current = [] \<and> chunks \<noteq> [] \<longrightarrow> length (last chunks) = maxLen"
  shows "recon maxLen H T chunks current"
  unfolding recon_def using assms by blast

lemma lineStep_recon:
  assumes m: "0 < maxLen" and cur: "length current \<le> maxLen"
    and r: "recon maxLen H T chunks current" and h: "H \<longrightarrow> length line \<le> maxLen"
  shows "\<exists>chunks' current'. lineStep maxLen (chunks, current) line = Some (chunks', current')
           \<and> length current' \<le> maxLen
           \<and> recon maxLen H (T @ line @ [10]) chunks' current'"
proof -
  from r obtain n0 ps where ps: "map fst ps = chunks" and n0: "nls n0"
    and ok: "list_all (gapOk maxLen) ps"
    and ne: "H \<longrightarrow> list_all (\<lambda>cg. snd cg \<noteq> []) ps"
    and T: "T = n0 @ weave ps @ (if current = [] then [] else current @ [10])"
    and full: "current = [] \<and> chunks \<noteq> [] \<longrightarrow> length (last chunks) = maxLen"
    unfolding recon_def by blast
  let ?cand = "if current \<noteq> [] then current @ [10] @ line else line"
  let ?chunks1 = "if current \<noteq> [] then chunks @ [current] else chunks"
  let ?ps1 = "if current \<noteq> [] then ps @ [(current, [10])] else ps"
  have ps1: "map fst ?ps1 = ?chunks1" using ps by simp
  have ok1: "list_all (gapOk maxLen) ?ps1" using ok by simp
  have T1: "T = n0 @ weave ?ps1" using T by simp
  show ?thesis
  proof (cases "length ?cand \<le> maxLen")
    case fits: True
    then have step: "lineStep maxLen (chunks, current) line = Some (chunks, ?cand)"
      by (simp add: lineStep_def)
    have "recon maxLen H (T @ line @ [10]) chunks ?cand"
    proof (cases "current = []")
      case False
      then show ?thesis using ps n0 ok ne T by (intro reconI [of ps _ n0]) simp_all
    next
      case c: True
      show ?thesis
      proof (cases "line = []")
        case False
        then show ?thesis using c ps n0 ok ne T by (intro reconI [of ps _ n0]) simp_all
      next
        case l: True
        show ?thesis
        proof (cases ps rule: rev_cases)
          case Nil
          then have "chunks = []" using ps by simp
          then show ?thesis using c l Nil n0 T
            by (intro reconI [of "[]" _ "n0 @ [10]"]) simp_all
        next
          case (snoc qs cg)
          obtain c0 g where cg: "cg = (c0, g)" by (cases cg)
          have ch: "chunks = map fst qs @ [c0]" using ps snoc cg by auto
          then have len: "length c0 = maxLen" using full c by simp
          have okq: "list_all (gapOk maxLen) qs" and okg: "nls g"
            using ok snoc cg by (simp_all add: gapOk_def)
          have "list_all (gapOk maxLen) (qs @ [(c0, g @ [10])])"
            using okq okg len by (simp add: gapOk_def)
          moreover have "H \<longrightarrow> list_all (\<lambda>cg. snd cg \<noteq> []) (qs @ [(c0, g @ [10])])"
            using ne snoc by simp
          ultimately show ?thesis using c l ch n0 T snoc cg len
            by (intro reconI [of "qs @ [(c0, g @ [10])]" _ n0]) simp_all
        qed
      qed
    qed
    then show ?thesis using step fits by blast
  next
    case nofit: False
    show ?thesis
    proof (cases "length line \<le> maxLen")
      case short: True
      then have step: "lineStep maxLen (chunks, current) line = Some (?chunks1, line)"
        using nofit by (simp add: lineStep_def)
      have cne: "current \<noteq> []" using nofit short by auto
      have "recon maxLen H (T @ line @ [10]) ?chunks1 line"
      proof (cases "line = []")
        case False
        then show ?thesis using cne ps n0 ok ne T
          by (intro reconI [of "ps @ [(current, [10])]" _ n0]) simp_all
      next
        case l: True
        have len: "length current = maxLen" using nofit cne l cur by simp
        have "list_all (gapOk maxLen) (ps @ [(current, [10, 10])])"
          using ok len by (simp add: gapOk_def nls_def)
        then show ?thesis using cne l ps n0 ne T len
          by (intro reconI [of "ps @ [(current, [10, 10])]" _ n0]) simp_all
      qed
      then show ?thesis using step short by blast
    next
      case long: False
      obtain cs rest where hs: "hardSplit maxLen line = Some (cs, rest)"
        and csl: "\<forall>c\<in>set cs. length c = maxLen" and rl: "length rest \<le> maxLen"
        and cat: "concat cs @ rest = line"
        and rne: "line \<noteq> [] \<longrightarrow> rest \<noteq> []"
        using hardSplit_total [OF m, of line] by (elim exE conjE) (rule that; assumption)
      have step: "lineStep maxLen (chunks, current) line = Some (?chunks1 @ cs, rest)"
        using nofit long hs by (simp add: lineStep_def)
      have rn: "rest \<noteq> []" using rne long by auto
      have okp: "list_all (gapOk maxLen) (?ps1 @ map (\<lambda>c. (c, [])) cs)"
        using ok1 gapOk_pieces [OF csl] by simp
      have mp: "map fst (?ps1 @ map (\<lambda>c. (c, [])) cs) = ?chunks1 @ cs"
        using ps1 by (simp add: comp_def)
      have Teq: "T @ line @ [10] = n0 @ weave (?ps1 @ map (\<lambda>c. (c, [])) cs) @ rest @ [10]"
        using T1 cat by (metis append.assoc weave_append weave_pieces)
      have nH: "\<not> H" using h long by blast
      have "recon maxLen H (T @ line @ [10]) (?chunks1 @ cs) rest"
        using mp n0 okp Teq rn nH by (intro reconI [of "?ps1 @ map (\<lambda>c. (c, [])) cs" _ n0]) simp_all
      then show ?thesis using step rl by blast
    qed
  qed
qed

lemma linesLoop_recon:
  assumes m: "0 < maxLen"
  shows "length current \<le> maxLen \<Longrightarrow> recon maxLen H T chunks current \<Longrightarrow>
         H \<longrightarrow> (\<forall>l\<in>set lines. length l \<le> maxLen) \<Longrightarrow>
         \<exists>chunks' current'. linesLoop maxLen (chunks, current) lines = Some (chunks', current')
           \<and> length current' \<le> maxLen
           \<and> recon maxLen H (T @ terminated lines) chunks' current'"
proof (induction lines arbitrary: chunks current T)
  case Nil
  then show ?case by (simp add: terminated_def)
next
  case (Cons line lines)
  have h1: "H \<longrightarrow> length line \<le> maxLen" using Cons.prems(3) by simp
  have h2: "H \<longrightarrow> (\<forall>l\<in>set lines. length l \<le> maxLen)" using Cons.prems(3) by simp
  obtain c1 u1 where s: "lineStep maxLen (chunks, current) line = Some (c1, u1)"
    and le: "length u1 \<le> maxLen" and r1: "recon maxLen H (T @ line @ [10]) c1 u1"
    using lineStep_recon [OF m Cons.prems(1) Cons.prems(2) h1]
    by (elim exE conjE) (rule that; assumption)
  obtain c2 u2 where l: "linesLoop maxLen (c1, u1) lines = Some (c2, u2)"
    and le2: "length u2 \<le> maxLen"
    and r2: "recon maxLen H ((T @ line @ [10]) @ terminated lines) c2 u2"
    using Cons.IH [OF le r1 h2] by (elim exE conjE) (rule that; assumption)
  have "linesLoop maxLen (chunks, current) (line # lines) = Some (c2, u2)" using s l by simp
  moreover have "(T @ line @ [10]) @ terminated lines = T @ terminated (line # lines)"
    by (simp add: terminated_def)
  ultimately show ?case using le2 r2 by (intro exI conjI) (assumption, assumption, simp)
qed

lemma terminated_splitOn: "terminated (splitOn 10 s) = s @ [10]"
proof (induction s)
  case Nil
  then show ?case by (simp add: terminated_def)
next
  case (Cons x s)
  obtain y ys where sp: "splitOn 10 s = y # ys" by (cases "splitOn 10 s") simp_all
  show ?case using Cons sp by (simp add: terminated_def)
qed

lemma terminated_join: "cs \<noteq> [] \<Longrightarrow> terminated cs = joinWith [10] cs @ [10]"
proof (induction cs)
  case Nil
  then show ?case by simp
next
  case (Cons c cs)
  then show ?case by (cases cs) (simp_all add: terminated_def)
qed

lemma weave_unit_gaps:
  "list_all (\<lambda>cg. snd cg = [10]) ps \<Longrightarrow> weave ps = terminated (map fst ps)"
  by (induction ps) (simp_all add: weave_def terminated_def)

lemma nls_hd: "nls s \<Longrightarrow> s \<noteq> [] \<Longrightarrow> hd s = 10"
  by (cases s) (simp_all add: nls_def)

lemma nls_last: "nls s \<Longrightarrow> s \<noteq> [] \<Longrightarrow> last s = 10"
  by (induction s) (simp_all add: nls_def)

lemma one_chunk_cases:
  assumes "\<not> 2 \<le> length (chunks :: 'a list)"
  obtains "chunks = []" | c where "chunks = [c]"
  using assms by (cases chunks; cases "tl chunks") auto




section \<open>The seen filter and the polling cycles\<close>

lemma seenStep_keeps:
  "seenOf st k = Some v \<Longrightarrow> truthy (Some v) \<Longrightarrow> seenOf (seenStep clock st s) k = Some v"
  by (auto simp: seenStep_def)

lemma foldl_seenStep_keeps:
  "seenOf st k = Some v \<Longrightarrow> truthy (Some v) \<Longrightarrow> seenOf (foldl (seenStep clock) st found) k = Some v"
proof (induction found arbitrary: st)
  case Nil
  then show ?case by simp
next
  case (Cons s found)
  have "seenOf (seenStep clock st s) k = Some v" using Cons.prems by (rule seenStep_keeps)
  then show ?case using Cons.IH Cons.prems(2) by simp
qed

lemma seenFilter_keeps:
  "sn k = Some v \<Longrightarrow> truthy (Some v) \<Longrightarrow> seenOf (seenFilter clock t sn found) k = Some v"
  unfolding seenFilter_def by (rule foldl_seenStep_keeps) simp_all

lemma checkOnce0_keeps:
  assumes "mem w k = Some v" "truthy (Some v)"
  shows "mem (fst (checkOnce0 clock env w)) k = Some v"
proof (cases "discovered env")
  case (Inl e)
  then show ?thesis using assms by (simp add: checkOnce0_def)
next
  case (Inr found)
  have "seenOf (seenFilter clock (tick w) (mem w) found) k = Some v"
    using assms by (rule seenFilter_keeps)
  then show ?thesis using Inr by (simp add: checkOnce0_def Let_def)
qed

lemma checkOnce_mem: "mem (fst (checkOnce localeCompare env w)) = mem w"
  by (cases "discovered env") (simp_all add: checkOnce_def Let_def)

lemma mainLoop_keeps:
  assumes step: "\<And>env w. mem w k = Some v \<Longrightarrow> mem (fst (cycle env w)) k = Some v"
  shows "mem w k = Some v \<Longrightarrow> mem (fst (mainLoop cycle envs w)) k = Some v"
proof (induction envs arbitrary: w)
  case Nil
  then show ?case by simp
next
  case (Cons env envs)
  obtain w1 d where c: "cycle env w = (w1, d)" by (cases "cycle env w")
  have "mem w1 k = Some v" using step [OF Cons.prems, of env] c by simp
  then have "mem (fst (mainLoop cycle envs w1)) k = Some v" by (rule Cons.IH)
  then show ?case using c by (cases "mainLoop cycle envs w1") simp
qed

text \<open>
  Claim C2. For every sequence of polling cycles, in either variant of the script, a key that
  is present in \<open>state.seen\<close> with a timestamp (any truthy value; a timestamp is a
  non-empty string) is still present with the same value after the cycles: nothing removes
  it or overwrites it.
\<close>

theorem seen_monotone:
  assumes "mem w k = Some v" and "truthy (Some v)"
  shows "mem (fst (mainLoop (checkOnce0 clock) envs w)) k = Some v
       \<and> mem (fst (mainLoop (checkOnce localeCompare) envs w)) k = Some v"
proof
  show "mem (fst (mainLoop (checkOnce0 clock) envs w)) k = Some v"
    using assms(1)
  proof (rule mainLoop_keeps [rotated])
    fix env and w' :: world assume "mem w' k = Some v"
    then show "mem (fst (checkOnce0 clock env w')) k = Some v" using assms(2) by (rule checkOnce0_keeps)
  qed
  show "mem (fst (mainLoop (checkOnce localeCompare) envs w)) k = Some v"
    using assms(1)
  proof (rule mainLoop_keeps [rotated])
    fix env and w' :: world assume "mem w' k = Some v"
    then show "mem (fst (checkOnce localeCompare env w')) k = Some v" by (simp add: checkOnce_mem)
  qed
qed

theorem seen_monotone_witness:
  "truthy (Some (JStr (js ''2025-03-01T00:00:00.000Z'')))
   \<and> mem (fst (mainLoop (checkOnce0 (\<lambda>n. js ''2025-03-02T00:00:00.000Z''))
        [\<lparr>discovered = Inr [mkSlot \<lparr>plan_id = 20, label = js ''Plan 20''\<rparr> (js ''2025-03-12''),
                              mkSlot \<lparr>plan_id = 34, label = js ''Plan 34''\<rparr> (js ''2025-03-12'')],
          delivered = False\<rparr>,
         \<lparr>discovered = Inl (js ''initial GET failed: 503''), delivered = True\<rparr>]
        \<lparr>mem = [js ''20|2025-03-12'' \<mapsto> JStr (js ''2025-03-01T00:00:00.000Z'')], saved = None, tick = 0\<rparr>))
       (js ''20|2025-03-12'') = Some (JStr (js ''2025-03-01T00:00:00.000Z''))"
proof -
  let ?w = "\<lparr>mem = [js ''20|2025-03-12'' \<mapsto> JStr (js ''2025-03-01T00:00:00.000Z'')], saved = None, tick = 0\<rparr>"
  have h1: "mem ?w (js ''20|2025-03-12'') = Some (JStr (js ''2025-03-01T00:00:00.000Z''))" by simp
  have h2: "truthy (Some (JStr (js ''2025-03-01T00:00:00.000Z'')))" by (simp add: js_def)
  show ?thesis using h2 seen_monotone [OF h1 h2] by blast
qed

text \<open>
  The filter of the earlier variant: provided \<open>nowIso()\<close> never returns the empty string,
  the keys of the reported slots are exactly the keys of \<open>found\<close> whose value in
  \<open>state.seen\<close> is not truthy (absent, for a state that holds timestamps), each once; after
  the run every key of \<open>found\<close> is seen; and a second run over the same list reports nothing.
\<close>

lemma foldl_seenStep_newMatches:
  assumes clock: "\<forall>n. clock n \<noteq> []"
  shows "newMatches (foldl (seenStep clock) st found)
           = newMatches st @ newSlots (\<lambda>k. truthy (seenOf st k)) found"
proof (induction found arbitrary: st)
  case Nil
  then show ?case by simp
next
  case (Cons s found)
  show ?case
  proof (cases "truthy (seenOf st (key s))")
    case True
    then have "seenStep clock st s = st" by (simp add: seenStep_def)
    then show ?thesis using Cons.IH [of st] True by simp
  next
    case False
    let ?st = "seenStep clock st s"
    have k: "(\<lambda>k. truthy (seenOf ?st k)) = (\<lambda>k. truthy (seenOf st k))(key s := True)"
      using False clock by (auto simp: seenStep_def fun_eq_iff)
    have n: "newMatches ?st = newMatches st @ [s]" using False by (simp add: seenStep_def)
    show ?thesis using Cons.IH [of ?st] False by (simp add: k n)
  qed
qed

lemma foldl_seenStep_truthy:
  assumes clock: "\<forall>n. clock n \<noteq> []"
  shows "truthy (seenOf (foldl (seenStep clock) st found) k)
           \<longleftrightarrow> truthy (seenOf st k) \<or> k \<in> key ` set found"
proof (induction found arbitrary: st)
  case Nil
  then show ?case by simp
next
  case (Cons s found)
  have "truthy (seenOf (seenStep clock st s) k) \<longleftrightarrow> truthy (seenOf st k) \<or> k = key s"
    using clock by (auto simp: seenStep_def)
  then show ?case using Cons.IH [of "seenStep clock st s"] by auto
qed

lemma newSlots_keys: "key ` set (newSlots known found) = key ` set found - {k. known k}"
proof (induction found arbitrary: known)
  case Nil
  then show ?case by simp
next
  case (Cons s found)
  show ?case
  proof (cases "known (key s)")
    case True
    then show ?thesis using Cons.IH [of known] by auto
  next
    case False
    have ih: "key ` set (newSlots (known(key s := True)) found)
        = key ` set found - {k. (known(key s := True)) k}" by (rule Cons.IH)
    have "{k. (known(key s := True)) k} = insert (key s) {k. known k}" by auto
    then have "key ` set (newSlots (known(key s := True)) found)
        = key ` set found - insert (key s) {k. known k}" using ih by simp
    moreover have "newSlots known (s # found) = s # newSlots (known(key s := True)) found"
      using False by simp
    ultimately show ?thesis using False by auto
  qed
qed

lemma newSlots_distinct: "distinct (map key (newSlots known found))"
proof (induction found arbitrary: known)
  case Nil
  then show ?case by simp
next
  case (Cons s found)
  show ?case
  proof (cases "known (key s)")
    case True
    then show ?thesis using Cons.IH [of known] by simp
  next
    case False
    have "key s \<notin> key ` set (newSlots (known(key s := True)) found)"
      by (simp add: newSlots_keys)
    moreover have "distinct (map key (newSlots (known(key s := True)) found))" by (rule Cons.IH)
    moreover have "newSlots known (s # found) = s # newSlots (known(key s := True)) found"
      using False by simp
    ultimately show ?thesis by (simp del: newSlots.simps fun_upd_apply)
  qed
qed

lemma newSlots_none: "\<forall>s\<in>set found. known (key s) \<Longrightarrow> newSlots known found = []"
  by (induction found) simp_all

lemma seenFilter_new_iff_absent:
  assumes clock: "\<forall>n. clock n \<noteq> []"
  shows "key ` set (newMatches (seenFilter clock t sn found)) = {k \<in> key ` set found. \<not> truthy (sn k)}
       \<and> distinct (map key (newMatches (seenFilter clock t sn found)))
       \<and> (\<forall>k. truthy (seenOf (seenFilter clock t sn found) k) \<longleftrightarrow> truthy (sn k) \<or> k \<in> key ` set found)
       \<and> newMatches (seenFilter clock t' (seenOf (seenFilter clock t sn found)) found) = []"
proof (intro conjI allI)
  let ?F = "seenFilter clock t sn found"
  have nm: "newMatches ?F = newSlots (\<lambda>k. truthy (sn k)) found"
    using foldl_seenStep_newMatches [OF clock] by (simp add: seenFilter_def)
  show "key ` set (newMatches ?F) = {k \<in> key ` set found. \<not> truthy (sn k)}"
    unfolding nm newSlots_keys by auto
  show "distinct (map key (newMatches ?F))" unfolding nm by (rule newSlots_distinct)
  show tr: "truthy (seenOf ?F k) \<longleftrightarrow> truthy (sn k) \<or> k \<in> key ` set found" for k
    using foldl_seenStep_truthy [OF clock] by (simp add: seenFilter_def)
  have "newMatches (seenFilter clock t' (seenOf ?F) found) = newSlots (\<lambda>k. truthy (seenOf ?F k)) found"
    using foldl_seenStep_newMatches [OF clock] by (simp add: seenFilter_def)
  also have "\<dots> = []" by (rule newSlots_none) (simp add: tr)
  finally show "newMatches (seenFilter clock t' (seenOf ?F) found) = []" .
qed

lemma numToString_20: "numToString 20 = js ''20''"
  by (simp add: numToString.simps js_def)

text \<open>
  Claim C1 fails in src/index.js: with the key of a discovered slot already in
  \<open>state.seen\<close>, \<open>checkOnce\<close> dispatches the slot again and leaves the state as it was,
  where the earlier variant (\<open>checkOnce0\<close>) dispatches nothing.
\<close>

theorem checkOnce_ignores_seen:
  "key (mkSlot \<lparr>plan_id = 20, label = js ''Plan 20''\<rparr> (js ''2025-03-12'')) = js ''20|2025-03-12''
   \<and> checkOnce localeCompare
        \<lparr>discovered = Inr [mkSlot \<lparr>plan_id = 20, label = js ''Plan 20''\<rparr> (js ''2025-03-12'')],
         delivered = True\<rparr>
        \<lparr>mem = [js ''20|2025-03-12'' \<mapsto> JStr (js ''2025-03-01T00:00:00.000Z'')], saved = None, tick = 0\<rparr>
      = (\<lparr>mem = [js ''20|2025-03-12'' \<mapsto> JStr (js ''2025-03-01T00:00:00.000Z'')], saved = None, tick = 0\<rparr>,
         Dispatched [mkSlot \<lparr>plan_id = 20, label = js ''Plan 20''\<rparr> (js ''2025-03-12'')])
   \<and> checkOnce0 clock
        \<lparr>discovered = Inr [mkSlot \<lparr>plan_id = 20, label = js ''Plan 20''\<rparr> (js ''2025-03-12'')],
         delivered = True\<rparr>
        \<lparr>mem = [js ''20|2025-03-12'' \<mapsto> JStr (js ''2025-03-01T00:00:00.000Z'')], saved = None, tick = 0\<rparr>
      = (\<lparr>mem = [js ''20|2025-03-12'' \<mapsto> JStr (js ''2025-03-01T00:00:00.000Z'')], saved = None, tick = 0\<rparr>,
         NoDispatch)"
proof -
  let ?s = "mkSlot \<lparr>plan_id = 20, label = js ''Plan 20''\<rparr> (js ''2025-03-12'')"
  have k: "key ?s = js ''20|2025-03-12''" by (simp add: mkSlot_def numToString_20 js_def)
  have d: "dedupeFoundSlots localeCompare [?s] = [?s]"
    by (simp add: dedupeFoundSlots_def byKeyStep_def sortBy_def)
  have f: "seenFilter clock 0 [js ''20|2025-03-12'' \<mapsto> JStr (js ''2025-03-01T00:00:00.000Z'')] [?s]
      = \<lparr>seenOf = [js ''20|2025-03-12'' \<mapsto> JStr (js ''2025-03-01T00:00:00.000Z'')], newMatches = [], ticks = 0\<rparr>"
    by (simp add: seenFilter_def seenStep_def k) (simp add: js_def)
  show ?thesis
    by (simp add: k checkOnce_def checkOnce0_def d f Let_def)
qed

section \<open>Loading the state\<close>

lemma loadState_defends:
  "fst (loadState now NoFile) = emptyState"
  "loadState now (Unreadable msg) = (emptyState, [loadWarning now msg])"
  "loadState now (Corrupt msg) = (emptyState, [loadWarning now msg])"
  "typeof (Some data) \<noteq> ''object'' \<Longrightarrow> loadState now (Document data) = (emptyState, [])"
  "typeof (getProp data (js ''seen'')) \<noteq> ''object'' \<Longrightarrow> loadState now (Document data) = (emptyState, [])"
  by (simp_all add: loadState_def)

text \<open>
  Claim C9 fails for a document whose \<open>seen\<close> is \<open>null\<close>: \<open>typeof null\<close> is
  \<open>'object'\<close>, so \<open>loadState\<close> returns the document as it is, not the empty state.
\<close>

theorem loadState_seen_null:
  "loadState now (Document (JObj [(js ''seen'', JNull)])) = (JObj [(js ''seen'', JNull)], [])
   \<and> JObj [(js ''seen'', JNull)] \<noteq> emptyState"
  by (simp add: loadState_def emptyState_def)

section \<open>Facts about the matcher\<close>

declare execAll.simps [simp del]

declare matchAt.simps [simp del]

lemma m_Rep_cases:
  assumes "matchAt ci (Rep g lo hi c # k) p s caps = Some r"
  shows "(\<exists>x xs. s = x # xs \<and> hi \<noteq> Some 0 \<and> inClass c x
            \<and> matchAt ci (Rep g (lo - 1) (map_option (\<lambda>h. h - 1) hi) c # k) (x # p) xs caps = Some r)
         \<or> (lo = 0 \<and> matchAt ci k p s caps = Some r)"
proof (cases "0 < lo")
  case True
  then show ?thesis using assms by (subst (asm) matchAt.simps(4)) (auto split: list.splits if_splits)
next
  case False
  then show ?thesis using assms
    by (subst (asm) matchAt.simps(4)) (cases g; auto split: list.splits if_splits option.splits)
qed

lemma litPrefix_iff:
  "litPrefix ci l s \<longleftrightarrow> (\<exists>l' t. s = l' @ t \<and> list_all2 (chEq ci) l l')"
proof (induction ci l s rule: litPrefix.induct)
  case (1 ci s)
  then show ?case by simp
next
  case (2 ci x xs)
  then show ?case by simp
next
  case (3 ci x xs y ys)
  show ?case
  proof
    assume "litPrefix ci (x # xs) (y # ys)"
    then have e: "chEq ci x y" and "litPrefix ci xs ys" by simp_all
    then obtain l' t where "ys = l' @ t" "list_all2 (chEq ci) xs l'" using 3 by blast
    then have "y # ys = (y # l') @ t \<and> list_all2 (chEq ci) (x # xs) (y # l')" using e by simp
    then show "\<exists>l' t. y # ys = l' @ t \<and> list_all2 (chEq ci) (x # xs) l'" by blast
  next
    assume "\<exists>l' t. y # ys = l' @ t \<and> list_all2 (chEq ci) (x # xs) l'"
    then obtain l' t where a: "y # ys = l' @ t" and b: "list_all2 (chEq ci) (x # xs) l'" by blast
    from b obtain z zs where l': "l' = z # zs" and c: "chEq ci x z" and d: "list_all2 (chEq ci) xs zs"
      by (cases l') auto
    from a l' have "y = z" "ys = zs @ t" by simp_all
    then show "litPrefix ci (x # xs) (y # ys)" using c d 3 by auto
  qed
qed

lemma m_Lit_inv:
  assumes "matchAt ci (Lit l # k) p s caps = Some r"
  obtains l' t where "s = l' @ t" "list_all2 (chEq ci) l l'" "matchAt ci k (rev l' @ p) t caps = Some r"
proof -
  from assms have lp: "litPrefix ci l s"
    and mk: "matchAt ci k (rev (take (length l) s) @ p) (drop (length l) s) caps = Some r"
    by (simp_all add: matchAt.simps split: if_splits)
  from lp obtain l' t where s: "s = l' @ t" and e: "list_all2 (chEq ci) l l'"
    unfolding litPrefix_iff by blast
  have len: "length l' = length l" using e by (simp add: list_all2_lengthD)
  have "take (length l) s = l'" "drop (length l) s = t" using s len by simp_all
  then show ?thesis using that [OF s e] mk by simp
qed

lemma m_Cls_inv:
  assumes "matchAt ci (Cls c # k) p s caps = Some r"
  obtains x t where "s = x # t" "inClass c x" "matchAt ci k (x # p) t caps = Some r"
  using assms by (cases s) (auto simp: matchAt.simps split: if_splits)

lemma m_Rep_inv_aux:
  "matchAt ci (Rep g lo hi c # k) p s caps = Some r \<Longrightarrow>
     \<exists>u t. s = u @ t \<and> list_all (inClass c) u \<and> lo \<le> length u
          \<and> (case hi of None \<Rightarrow> True | Some h \<Rightarrow> length u \<le> h)
          \<and> matchAt ci k (rev u @ p) t caps = Some r"
proof (induction s arbitrary: lo hi p)
  case Nil
  then have "lo = 0" "matchAt ci k p [] caps = Some r"
    using m_Rep_cases [OF Nil.prems] by auto
  then show ?case by (auto split: option.splits)
next
  case (Cons x xs)
  let ?more = "matchAt ci (Rep g (lo - 1) (map_option (\<lambda>h. h - 1) hi) c # k) (x # p) xs caps"
  have alt: "(hi \<noteq> Some 0 \<and> inClass c x \<and> ?more = Some r) \<or> (lo = 0 \<and> matchAt ci k p (x # xs) caps = Some r)"
    using m_Rep_cases [OF Cons.prems] by auto
  then show ?case
  proof
    assume a: "hi \<noteq> Some 0 \<and> inClass c x \<and> ?more = Some r"
    then have "?more = Some r" by simp
    from Cons.IH [OF this] obtain u t where ut: "xs = u @ t" "list_all (inClass c) u" "lo - 1 \<le> length u"
      "(case map_option (\<lambda>h. h - 1) hi of None \<Rightarrow> True | Some h \<Rightarrow> length u \<le> h)"
      "matchAt ci k (rev u @ x # p) t caps = Some r"
      by (elim exE conjE) (rule that; assumption)
    have "x # xs = (x # u) @ t" using ut(1) by simp
    moreover have "list_all (inClass c) (x # u)" using a ut(2) by simp
    moreover have "lo \<le> length (x # u)" using ut(3) by simp
    moreover have "(case hi of None \<Rightarrow> True | Some h \<Rightarrow> length (x # u) \<le> h)"
      using ut(4) a by (cases hi) auto
    moreover have "matchAt ci k (rev (x # u) @ p) t caps = Some r" using ut(5) by simp
    ultimately show ?thesis by blast
  next
    assume "lo = 0 \<and> matchAt ci k p (x # xs) caps = Some r"
    then have "x # xs = [] @ (x # xs) \<and> list_all (inClass c) [] \<and> lo \<le> length ([]::jsstring)
        \<and> (case hi of None \<Rightarrow> True | Some h \<Rightarrow> length ([]::jsstring) \<le> h)
        \<and> matchAt ci k (rev [] @ p) (x # xs) caps = Some r"
      by (auto split: option.splits)
    then show ?thesis by blast
  qed
qed

lemma m_Rep_inv:
  assumes "matchAt ci (Rep g lo hi c # k) p s caps = Some r"
  obtains u t where "s = u @ t" "list_all (inClass c) u" "lo \<le> length u"
    "case hi of None \<Rightarrow> True | Some h \<Rightarrow> length u \<le> h" "matchAt ci k (rev u @ p) t caps = Some r"
  using m_Rep_inv_aux [OF assms] by (elim exE conjE) (rule that; assumption)

lemma m_Opt_inv:
  assumes "matchAt ci (Opt rs # k) p s caps = Some r"
  shows "matchAt ci (rs @ k) p s caps = Some r \<or> matchAt ci k p s caps = Some r"
  using assms by (auto simp: matchAt.simps split: option.splits)

lemma searchFrom_inv_aux:
  "searchFrom ci re p s = Some r \<Longrightarrow> \<exists>a t. s = a @ t \<and> matchAt ci re (rev a @ p) t [] = Some r"
proof (induction s arbitrary: p)
  case Nil
  then show ?case by simp
next
  case (Cons x xs)
  show ?case
  proof (cases "matchAt ci re p (x # xs) []")
    case (Some r')
    then have "matchAt ci re (rev [] @ p) (x # xs) [] = Some r" using Cons.prems by simp
    then show ?thesis by (metis append_Nil)
  next
    case None
    then have "searchFrom ci re (x # p) xs = Some r" using Cons.prems by simp
    then obtain a t where "xs = a @ t" "matchAt ci re (rev a @ x # p) t [] = Some r"
      using Cons.IH by blast
    then have "x # xs = (x # a) @ t \<and> matchAt ci re (rev (x # a) @ p) t [] = Some r" by simp
    then show ?thesis by blast
  qed
qed

lemma searchFrom_inv:
  assumes "searchFrom ci re p s = Some r"
  obtains a t where "s = a @ t" "matchAt ci re (rev a @ p) t [] = Some r"
  using searchFrom_inv_aux [OF assms] by blast

lemma m_Back_inv:
  assumes "matchAt ci (Back n # k) p s caps = Some r"
  obtains l' t where "s = l' @ t" "matchAt ci k (rev l' @ p) t caps = Some r"
proof (cases "map_of caps n")
  case None
  then have "matchAt ci k (rev [] @ p) s caps = Some r" using assms by (simp add: matchAt.simps)
  then show ?thesis using that [of "[]" s] by simp
next
  case (Some l)
  then have lp: "litPrefix ci l s"
    and mk: "matchAt ci k (rev (take (length l) s) @ p) (drop (length l) s) caps = Some r"
    using assms by (simp_all add: matchAt.simps split: if_splits)
  have "s = take (length l) s @ drop (length l) s" by simp
  then show ?thesis using that mk by blast
qed

lemma m_suffix_aux:
  "sum_list (map rxSize rs) = n \<Longrightarrow> matchAt ci rs p s caps = Some (caps', p', s') \<Longrightarrow>
     \<exists>u. s = u @ s' \<and> p' = rev u @ p"
proof (induction n arbitrary: rs p s caps rule: less_induct)
  case (less n)
  note IH = less.IH
  show ?case
  proof (cases rs)
    case Nil
    then show ?thesis using less.prems by (simp add: matchAt.simps)
  next
    case (Cons r k)
    have sz: "sum_list (map rxSize k) < n" using less.prems(1) Cons by (cases r) auto
    have step: "\<exists>u. s = u @ s' \<and> p' = rev u @ p"
      if "s = w @ t" "matchAt ci k (rev w @ p) t c2 = Some (caps', p', s')" for w t c2
    proof -
      from IH [OF sz refl that(2)] obtain u where "t = u @ s'" "p' = rev u @ rev w @ p" by blast
      then have "s = (w @ u) @ s' \<and> p' = rev (w @ u) @ p" using that(1) by simp
      then show ?thesis by blast
    qed
    show ?thesis
    proof (cases r)
      case (Lit l)
      from less.prems(2) [unfolded Cons Lit] show ?thesis by (rule m_Lit_inv) (rule step)
    next
      case (Cls c)
      from less.prems(2) [unfolded Cons Cls] obtain x t where
        "s = x # t" "matchAt ci k (x # p) t caps = Some (caps', p', s')" by (rule m_Cls_inv)
      then show ?thesis using step [of "[x]" t caps] by simp
    next
      case (Rep g lo hi c)
      from less.prems(2) [unfolded Cons Rep] obtain u t where
        "s = u @ t" "matchAt ci k (rev u @ p) t caps = Some (caps', p', s')" by (rule m_Rep_inv)
      then show ?thesis by (rule step)
    next
      case (Opt rs')
      have sz2: "sum_list (map rxSize (rs' @ k)) < n" using less.prems(1) Cons Opt by simp
      from m_Opt_inv [OF less.prems(2) [unfolded Cons Opt]] show ?thesis
      proof
        assume "matchAt ci (rs' @ k) p s caps = Some (caps', p', s')"
        from IH [OF sz2 refl this] show ?thesis .
      next
        assume "matchAt ci k p s caps = Some (caps', p', s')"
        then show ?thesis using step [of "[]" s caps] by simp
      qed
    next
      case (Cap g rs')
      have sz2: "sum_list (map rxSize (rs' @ CapEnd g (length p) # k)) < n"
        using less.prems(1) Cons Cap by simp
      have "matchAt ci (rs' @ CapEnd g (length p) # k) p s caps = Some (caps', p', s')"
        using less.prems(2) Cons Cap by (simp add: matchAt.simps)
      from IH [OF sz2 refl this] show ?thesis .
    next
      case (CapEnd g start)
      then have "matchAt ci k p s ((g, rev (take (length p - start) p)) # caps) = Some (caps', p', s')"
        using less.prems(2) Cons by (simp add: matchAt.simps)
      then show ?thesis using step [of "[]" s] by simp
    next
      case (Back g)
      from less.prems(2) [unfolded Cons Back] show ?thesis by (rule m_Back_inv) (rule step)
    next
      case WordB
      then have "matchAt ci k p s caps = Some (caps', p', s')"
        using less.prems(2) Cons by (simp add: matchAt.simps split: if_splits)
      then show ?thesis using step [of "[]" s caps] by simp
    next
      case Bol
      then have "matchAt ci k p s caps = Some (caps', p', s')"
        using less.prems(2) Cons by (simp add: matchAt.simps split: if_splits)
      then show ?thesis using step [of "[]" s caps] by simp
    next
      case Eol
      then have "matchAt ci k p s caps = Some (caps', p', s')"
        using less.prems(2) Cons by (simp add: matchAt.simps split: if_splits)
      then show ?thesis using step [of "[]" s caps] by simp
    qed
  qed
qed

lemma m_suffix:
  assumes "matchAt ci rs p s caps = Some (caps', p', s')"
  obtains u where "s = u @ s'" "p' = rev u @ p"
  using m_suffix_aux [OF refl assms] by blast

lemma m_Cap1_inv:
  assumes "matchAt ci (Cap n [r1] # k) p s caps = Some r"
  obtains "matchAt ci (r1 # CapEnd n (length p) # k) p s caps = Some r"
  using assms by (simp add: matchAt.simps)

lemma m_Cap5_inv:
  assumes "matchAt ci (Cap n [r1, r2, r3, r4, r5] # k) p s caps = Some r"
  obtains "matchAt ci (r1 # r2 # r3 # r4 # r5 # CapEnd n (length p) # k) p s caps = Some r"
  using assms by (simp add: matchAt.simps)

lemma m_CapEnd_inv:
  assumes "matchAt ci (CapEnd n st # k) p s caps = Some r"
  obtains "matchAt ci k p s ((n, rev (take (length p - st) p)) # caps) = Some r"
  using assms by (simp add: matchAt.simps)

lemma m_Nil_inv:
  assumes "matchAt ci [] p s caps = Some r"
  obtains "r = (caps, p, s)"
  using assms by (simp add: matchAt.simps)

lemma m_WordB_inv:
  assumes "matchAt ci (WordB # k) p s caps = Some r"
  obtains "wordAt p \<noteq> wordAt s" "matchAt ci k p s caps = Some r"
  using assms by (simp add: matchAt.simps split: if_splits)

lemma m_Bol_inv:
  assumes "matchAt ci (Bol # k) p s caps = Some r"
  obtains "p = []" "matchAt ci k p s caps = Some r"
  using assms by (simp add: matchAt.simps split: if_splits)

lemma m_Eol_inv:
  assumes "matchAt ci (Eol # k) p s caps = Some r"
  obtains "s = []" "matchAt ci k p s caps = Some r"
  using assms by (simp add: matchAt.simps split: if_splits)

lemmas m_invs = m_Lit_inv m_Cls_inv m_Rep_inv m_Cap1_inv m_CapEnd_inv m_Nil_inv m_WordB_inv
  m_Bol_inv m_Eol_inv

lemma chEq_nonletter: "\<not> (65 \<le> a \<and> a \<le> 90) \<Longrightarrow> \<not> (97 \<le> a \<and> a \<le> 122) \<Longrightarrow> chEq ci a b \<longleftrightarrow> a = b"
  by (auto simp: chEq_def canon_def)

lemma m_length:
  assumes "matchAt ci rs p s caps = Some (caps', p', s')"
  shows "length s' \<le> length s"
proof -
  from assms obtain u where "s = u @ s'" by (rule m_suffix)
  then show ?thesis by simp
qed

lemma search_progress:
  assumes "searchFrom ci (Lit (x # l) # k) p s = Some (caps, p', s')"
  shows "length s' < length s"
proof -
  from assms obtain a t where s: "s = a @ t"
    and mt: "matchAt ci (Lit (x # l) # k) (rev a @ p) t [] = Some (caps, p', s')"
    by (rule searchFrom_inv)
  from mt obtain l' t' where t: "t = l' @ t'" and e: "list_all2 (chEq ci) (x # l) l'"
    and mk: "matchAt ci k (rev l' @ rev a @ p) t' [] = Some (caps, p', s')"
    by (rule m_Lit_inv)
  have "length l' = Suc (length l)" using e by (auto dest: list_all2_lengthD)
  moreover have "length s' \<le> length t'" using mk by (rule m_length)
  ultimately show ?thesis using s t by simp
qed

lemma execAll_total: "\<exists>ms. execAll ci (Lit (x # l) # k) p s = Some ms"
proof (induction "length s" arbitrary: p s rule: less_induct)
  case less
  show ?case
  proof (cases "searchFrom ci (Lit (x # l) # k) p s")
    case None
    then show ?thesis by (subst execAll.simps) simp
  next
    case (Some r)
    obtain caps p' s' where r: "r = (caps, p', s')" by (cases r)
    have lt: "length s' < length s" using Some r search_progress by blast
    from less [OF lt] obtain ms where "execAll ci (Lit (x # l) # k) p' s' = Some ms" by blast
    then show ?thesis using Some r lt by (subst execAll.simps) simp
  qed
qed

lemma execAll_total_ne:
  assumes "l \<noteq> []"
  shows "\<exists>ms. execAll ci (Lit l # k) p s = Some ms"
proof -
  obtain x xs where "l = x # xs" using assms by (cases l) auto
  then show ?thesis using execAll_total by simp
qed

lemma js_ne: "js (c # cs) \<noteq> []"
  by (simp add: js_def)

lemma execAll_elems:
  "execAll ci re p s = Some ms \<Longrightarrow> c \<in> set ms \<Longrightarrow>
     \<exists>p0 t0 p1 s1. matchAt ci re p0 t0 [] = Some (c, p1, s1)"
proof (induction "length s" arbitrary: p s ms rule: less_induct)
  case less
  show ?case
  proof (cases "searchFrom ci re p s")
    case None
    then have "ms = []" using less.prems(1) by (subst (asm) execAll.simps) simp
    then show ?thesis using less.prems(2) by simp
  next
    case (Some r)
    obtain caps p' s' where r: "r = (caps, p', s')" by (cases r)
    have e: "(if length s' < length s then map_option (Cons caps) (execAll ci re p' s') else None) = Some ms"
      using less.prems(1) Some r by (subst (asm) execAll.simps) simp
    then have lt: "length s' < length s" by (simp split: if_splits)
    from e lt obtain ms' where ms': "execAll ci re p' s' = Some ms'" and ms: "ms = caps # ms'"
      by auto
    show ?thesis
    proof (cases "c = caps")
      case True
      obtain a t where "matchAt ci re (rev a @ p) t [] = Some (caps, p', s')"
        using Some r searchFrom_inv by blast
      then show ?thesis using True by blast
    next
      case False
      then have "c \<in> set ms'" using less.prems(2) ms by simp
      from less.hyps [OF lt ms' this] show ?thesis .
    qed
  qed
qed

text \<open>
  The definitions unfolded to evaluate the functions on a given page.
\<close>

lemmas ev = tdRegex_def js_def chEq_def canon_def wordAt_def isWordChar_def quotes_def notQuote_def notGt_def
  test_def capGroup_def digitsValue_def toNumber_def yearMonthRegex_def parseYearMonth_def padStart_def toIsoDate_def
  rsvRegex_def orEmpty_def rsvDateToIso_def circleRegex_def disabledRegex_def availableRegex_def acceptingRegex_def
  dataDateRegex_def dayRegex_def dayRegex0_def textDates_def cellDates_def setOrder_def parseAvailableDates_def
  parseAvailableDates0_def numToString.simps isWhiteSpace_def

lemmas evm = ev matchAt.simps

lemmas evx = evm execAll.simps dataDates_def cells_def cellRule_def specCellRule_def isoOfRsv_def

lemmas evy = evx decodeHtml_def plansRegex_def planStep_def dedupeStep_def dedupePlans_def rawPlans_def
  parsePlans_def inputRegex_def checkedRegex_def extractInputValue_def parseSelectedValue_def trim_def
  Let_def

section \<open>The year and month banner and the available dates\<close>

lemma yearMonth_shape_aux:
  "matchAt True yearMonthRegex p t [] = Some (caps, p', s') \<Longrightarrow>
     \<exists>y mo. capGroup caps 1 = Some y \<and> capGroup caps 2 = Some mo \<and> length y = 4
        \<and> list_all (inClass Digit) y \<and> 1 \<le> length mo \<and> length mo \<le> 2
        \<and> list_all (inClass Digit) mo \<and> 24180 \<in> set t \<and> 26376 \<in> set t"
  unfolding yearMonthRegex_def
  apply (elim m_invs)
  apply (clarsimp simp: capGroup_def list_all2_Cons1 list_all2_append1 chEq_nonletter)
  done

lemma dataDate_shape:
  "matchAt True dataDateRegex p t [] = Some (caps, p', s') \<Longrightarrow>
     \<exists>a b c. capGroup caps 1 = Some (a @ [47] @ b @ [47] @ c) \<and> length a = 4 \<and> length b = 2
        \<and> length c = 2 \<and> list_all (inClass Digit) a \<and> list_all (inClass Digit) b
        \<and> list_all (inClass Digit) c"
  unfolding dataDateRegex_def
  apply (elim m_invs m_Cap5_inv)
  apply (clarsimp simp: capGroup_def list_all2_Cons1 chEq_nonletter js_def)
  apply (metis (no_types, lifting) append.assoc append_Cons append_Nil le_antisym)
  done

lemma len4: "length a = 4 \<Longrightarrow> \<exists>a1 a2 a3 a4. a = [a1, a2, a3, a4]"
  by (cases a; cases "tl a"; cases "tl (tl a)"; cases "tl (tl (tl a))") auto

lemma len2: "length a = 2 \<Longrightarrow> \<exists>a1 a2. a = [a1, a2]"
  by (cases a; cases "tl a") auto

lemma rsvDateToIso_digits:
  assumes "48 \<le> a1 \<and> a1 \<le> 57" "48 \<le> a2 \<and> a2 \<le> 57" "48 \<le> a3 \<and> a3 \<le> 57" "48 \<le> a4 \<and> a4 \<le> 57"
    "48 \<le> b1 \<and> b1 \<le> 57" "48 \<le> b2 \<and> b2 \<le> 57" "48 \<le> c1 \<and> c1 \<le> 57" "48 \<le> c2 \<and> c2 \<le> 57"
  shows "rsvDateToIso [a1, a2, a3, a4, 47, b1, b2, 47, c1, c2] = [a1, a2, a3, a4, 45, b1, b2, 45, c1, c2]"
  using assms
  by (simp add: rsvDateToIso_def rsvRegex_def matchAt.simps js_def chEq_def capGroup_def orEmpty_def)

lemma rsvDateToIso_shape:
  assumes "length a = 4" "length b = 2" "length c = 2"
    "list_all (inClass Digit) a" "list_all (inClass Digit) b" "list_all (inClass Digit) c"
  shows "rsvDateToIso (a @ [47] @ b @ [47] @ c) = a @ [45] @ b @ [45] @ c
       \<and> isoOfRsv (a @ [47] @ b @ [47] @ c) = a @ [45] @ b @ [45] @ c
       \<and> rsvShape (a @ [47] @ b @ [47] @ c)"
proof -
  obtain a1 a2 a3 a4 where a: "a = [a1, a2, a3, a4]" using len4 [OF assms(1)] by blast
  obtain b1 b2 where b: "b = [b1, b2]" using len2 [OF assms(2)] by blast
  obtain c1 c2 where c: "c = [c1, c2]" using len2 [OF assms(3)] by blast
  have d: "48 \<le> a1 \<and> a1 \<le> 57" "48 \<le> a2 \<and> a2 \<le> 57" "48 \<le> a3 \<and> a3 \<le> 57" "48 \<le> a4 \<and> a4 \<le> 57"
    "48 \<le> b1 \<and> b1 \<le> 57" "48 \<le> b2 \<and> b2 \<le> 57" "48 \<le> c1 \<and> c1 \<le> 57" "48 \<le> c2 \<and> c2 \<le> 57"
    using assms(4-6) a b c by simp_all
  have "rsvDateToIso [a1, a2, a3, a4, 47, b1, b2, 47, c1, c2] = [a1, a2, a3, a4, 45, b1, b2, 45, c1, c2]"
    using d by (rule rsvDateToIso_digits)
  moreover have "isoOfRsv [a1, a2, a3, a4, 47, b1, b2, 47, c1, c2] = [a1, a2, a3, a4, 45, b1, b2, 45, c1, c2]"
    using d by (auto simp: isoOfRsv_def)
  moreover have "rsvShape [a1, a2, a3, a4, 47, b1, b2, 47, c1, c2]"
    using d by (simp add: rsvShape_def)
  ultimately show ?thesis by (simp add: a b c)
qed

lemma filter_map_pointwise:
  "\<forall>x\<in>set xs. f x = g x \<and> P (g x) \<Longrightarrow> filter P (map f xs) = map g xs"
  by (induction xs) auto

lemma dataDates_total:
  "\<exists>ms. execAll True dataDateRegex [] cell = Some ms \<and> dataDates cell = map (\<lambda>mt. orEmpty (capGroup mt 1)) ms"
proof -
  obtain ms where "execAll True dataDateRegex [] cell = Some ms"
    unfolding dataDateRegex_def using execAll_total_ne [OF js_ne] by blast
  then show ?thesis by (simp add: dataDates_def)
qed

lemma dataDates_iso:
  assumes "d \<in> set (dataDates cell)"
  shows "rsvDateToIso d = isoOfRsv d \<and> isoOfRsv d \<noteq> [] \<and> rsvShape d"
proof -
  obtain ms where ex: "execAll True dataDateRegex [] cell = Some ms"
    and dd: "dataDates cell = map (\<lambda>mt. orEmpty (capGroup mt 1)) ms"
    using dataDates_total by blast
  from assms dd obtain mt where mt: "mt \<in> set ms" and d: "d = orEmpty (capGroup mt 1)" by auto
  from execAll_elems [OF ex mt] obtain p0 t0 p1 s1 where
    "matchAt True dataDateRegex p0 t0 [] = Some (mt, p1, s1)" by blast
  from dataDate_shape [OF this] obtain a b c where g: "capGroup mt 1 = Some (a @ [47] @ b @ [47] @ c)"
    and l: "length a = 4" "length b = 2" "length c = 2"
    and dg: "list_all (inClass Digit) a" "list_all (inClass Digit) b" "list_all (inClass Digit) c"
    by blast
  have "d = a @ [47] @ b @ [47] @ c" using d g by (simp add: orEmpty_def)
  then show ?thesis using rsvDateToIso_shape [OF l dg] l by auto
qed

lemma cellDates_eq:
  "cellDates year month cell =
     Some (if test True circleRegex cell \<and> dataDates cell \<noteq> [] then map isoOfRsv (dataDates cell)
           else if test True disabledRegex cell then []
           else textDates dayRegex year month cell)"
proof -
  obtain ms where ex: "execAll True dataDateRegex [] cell = Some ms"
    and dd: "dataDates cell = map (\<lambda>mt. orEmpty (capGroup mt 1)) ms"
    using dataDates_total by blast
  have "filter (\<lambda>iso. iso \<noteq> []) (map rsvDateToIso (dataDates cell)) = map isoOfRsv (dataDates cell)"
    by (rule filter_map_pointwise) (use dataDates_iso in blast)
  then have f: "filter (\<lambda>iso. iso \<noteq> []) (map (\<lambda>mt. rsvDateToIso (orEmpty (capGroup mt 1))) ms)
      = map isoOfRsv (dataDates cell)"
    by (simp add: dd comp_def)
  have ne: "ms \<noteq> [] \<longleftrightarrow> dataDates cell \<noteq> []" by (simp add: dd)
  show ?thesis
    unfolding cellDates_def Let_def ex option.case f ne by simp
qed

lemma cells_total:
  "\<exists>tds. execAll True tdRegex [] html = Some tds \<and> cells html = map (\<lambda>tdMatch. orEmpty (capGroup tdMatch 1)) tds"
proof -
  obtain tds where "execAll True tdRegex [] html = Some tds"
    unfolding tdRegex_def using execAll_total_ne [OF js_ne] by blast
  then show ?thesis by (simp add: cells_def)
qed

lemma cellsLoop_total:
  assumes "\<And>cell. body cell = Some (f cell)"
  shows "cellsLoop body dates tds = Some (dates @ concat (map (\<lambda>tdMatch. f (orEmpty (capGroup tdMatch 1))) tds))"
  by (induction tds arbitrary: dates) (simp_all add: assms)

lemma foldl_setOrder:
  "set (foldl (\<lambda>acc x. if x \<in> set acc then acc else acc @ [x]) acc xs) = set acc \<union> set xs
   \<and> (distinct acc \<longrightarrow> distinct (foldl (\<lambda>acc x. if x \<in> set acc then acc else acc @ [x]) acc xs))"
  by (induction xs arbitrary: acc) auto

lemma set_setOrder [simp]: "set (setOrder xs) = set xs"
  using foldl_setOrder [of "[]" xs] by (simp add: setOrder_def)

lemma distinct_setOrder [simp]: "distinct (setOrder xs)"
  using foldl_setOrder [of "[]" xs] by (simp add: setOrder_def)

lemma parseAvailableDates_eq:
  "parseAvailableDates html fallbackDate =
     Some (sort (setOrder (concat (map (cellRule (fst (parseYearMonth html fallbackDate))
                                                   (snd (parseYearMonth html fallbackDate)))
                                          (cells html)))))"
proof -
  obtain year month where ym: "parseYearMonth html fallbackDate = (year, month)"
    by (cases "parseYearMonth html fallbackDate")
  obtain tds where ex: "execAll True tdRegex [] html = Some tds"
    and cs: "cells html = map (\<lambda>tdMatch. orEmpty (capGroup tdMatch 1)) tds"
    using cells_total by blast
  have body: "cellDates year month cell = Some (cellRule year month cell)" for cell
    by (simp add: cellDates_eq cellRule_def)
  have "cellsLoop (cellDates year month) [] tds
      = Some ([] @ concat (map (\<lambda>tdMatch. cellRule year month (orEmpty (capGroup tdMatch 1))) tds))"
    using body by (rule cellsLoop_total)
  then show ?thesis by (simp add: parseAvailableDates_def ym ex cs comp_def)
qed

lemma parseAvailableDates0_eq:
  "parseAvailableDates0 html fallbackDate =
     Some (sort (setOrder (concat (map (textDates dayRegex0 (fst (parseYearMonth html fallbackDate))
                                                   (snd (parseYearMonth html fallbackDate)))
                                          (cells html)))))"
proof -
  obtain year month where ym: "parseYearMonth html fallbackDate = (year, month)"
    by (cases "parseYearMonth html fallbackDate")
  obtain tds where ex: "execAll True tdRegex [] html = Some tds"
    and cs: "cells html = map (\<lambda>tdMatch. orEmpty (capGroup tdMatch 1)) tds"
    using cells_total by blast
  have "cellsLoop (\<lambda>cell. Some (textDates dayRegex0 year month cell)) [] tds
      = Some ([] @ concat (map (\<lambda>tdMatch. textDates dayRegex0 year month (orEmpty (capGroup tdMatch 1))) tds))"
    by (rule cellsLoop_total) simp
  then show ?thesis by (simp add: parseAvailableDates0_def ym ex cs comp_def)
qed

lemma textDates_day:
  assumes "x \<in> set (textDates dayRe year month cell)"
  shows "\<exists>day. 1 \<le> day \<and> day \<le> 31 \<and> x = toIsoDate year month day"
proof -
  from assms obtain day where "x = toIsoDate year month day" "\<not> (day < 1 \<or> day > 31)"
    unfolding textDates_def by (auto split: if_splits option.splits)
  then have "1 \<le> day \<and> day \<le> 31 \<and> x = toIsoDate year month day" by auto
  then show ?thesis by blast
qed

lemma yearMonth_numeric:
  assumes "searchFrom True yearMonthRegex [] html = Some (bm, p, s)"
  shows "toNumber (capGroup bm 1) \<noteq> None \<and> toNumber (capGroup bm 2) \<noteq> None
       \<and> 24180 \<in> set html \<and> 26376 \<in> set html"
proof -
  from assms obtain a t where h: "html = a @ t"
    and mt: "matchAt True yearMonthRegex (rev a @ []) t [] = Some (bm, p, s)"
    by (rule searchFrom_inv)
  from yearMonth_shape_aux [OF mt] obtain y mo where
    "capGroup bm 1 = Some y" "capGroup bm 2 = Some mo" "length y = 4" "list_all (inClass Digit) y"
    "1 \<le> length mo" "list_all (inClass Digit) mo" "24180 \<in> set t" "26376 \<in> set t"
    by blast
  then show ?thesis using h by (auto simp: toNumber_def)
qed







text \<open>
  Claim C5. When the page lacks the year and month banner (the pattern finds no match), and
  in particular when it lacks one of the two ideographs of the banner, \<open>parseYearMonth\<close>
  returns the year and the month of the fallback date; it would do so as well for a capture
  that is not an integer, which never happens, the captures being digits. The function is
  total: it has no failing branch.
\<close>

theorem parseYearMonth_fallback:
  "(searchFrom True yearMonthRegex [] html = None \<longrightarrow>
      parseYearMonth html fallbackDate = (fullYear fallbackDate, monthIndex fallbackDate + 1))
   \<and> (24180 \<notin> set html \<or> 26376 \<notin> set html \<longrightarrow>
      parseYearMonth html fallbackDate = (fullYear fallbackDate, monthIndex fallbackDate + 1))
   \<and> (\<forall>bm p s. searchFrom True yearMonthRegex [] html = Some (bm, p, s) \<longrightarrow>
        (toNumber (capGroup bm 1) = None \<or> toNumber (capGroup bm 2) = None \<longrightarrow>
           parseYearMonth html fallbackDate = (fullYear fallbackDate, monthIndex fallbackDate + 1))
        \<and> toNumber (capGroup bm 1) \<noteq> None \<and> toNumber (capGroup bm 2) \<noteq> None)"
proof (intro conjI allI impI)
  assume "searchFrom True yearMonthRegex [] html = None"
  then show "parseYearMonth html fallbackDate = (fullYear fallbackDate, monthIndex fallbackDate + 1)"
    by (simp add: parseYearMonth_def)
next
  assume a: "24180 \<notin> set html \<or> 26376 \<notin> set html"
  have "searchFrom True yearMonthRegex [] html = None"
  proof (cases "searchFrom True yearMonthRegex [] html")
    case (Some r)
    obtain bm p s where "r = (bm, p, s)" by (cases r)
    then show ?thesis using yearMonth_numeric [of html bm p s] Some a by blast
  qed simp
  then show "parseYearMonth html fallbackDate = (fullYear fallbackDate, monthIndex fallbackDate + 1)"
    by (simp add: parseYearMonth_def)
next
  fix bm p s
  assume s: "searchFrom True yearMonthRegex [] html = Some (bm, p, s)"
  show "toNumber (capGroup bm 1) \<noteq> None" "toNumber (capGroup bm 2) \<noteq> None"
    using yearMonth_numeric [OF s] by simp_all
  assume "toNumber (capGroup bm 1) = None \<or> toNumber (capGroup bm 2) = None"
  then show "parseYearMonth html fallbackDate = (fullYear fallbackDate, monthIndex fallbackDate + 1)"
    using s by (auto simp: parseYearMonth_def split: option.splits)
qed

theorem parseYearMonth_fallback_witness:
  "searchFrom True yearMonthRegex [] (js ''<p>none</p>'') = None
   \<and> parseYearMonth (js ''<p>none</p>'') \<lparr>fullYear = 2025, monthIndex = 2, dayOfMonth = 3\<rparr> = (2025, 3)"
proof -
  have n: "searchFrom True yearMonthRegex [] (js ''<p>none</p>'') = None" by (simp add: evm)
  then show ?thesis
    using parseYearMonth_fallback [of "js ''<p>none</p>''" "\<lparr>fullYear = 2025, monthIndex = 2, dayOfMonth = 3\<rparr>"]
    by simp
qed

section \<open>The plans\<close>

lemma numToString_digits: "\<forall>c\<in>set (numToString n). 48 \<le> c \<and> c \<le> 57"
proof (induction n rule: numToString.induct)
  case (1 n)
  show ?case
  proof (cases "n < 10")
    case True
    then show ?thesis by (subst numToString.simps) simp
  next
    case False
    have "n mod 10 < 10" by simp
    then have "48 + n mod 10 \<le> 57" by linarith
    then show ?thesis using False 1 by (subst numToString.simps) auto
  qed
qed

lemma digitsValue_snoc: "digitsValue (s @ [d]) = 10 * digitsValue s + (d - 48)"
  by (simp add: digitsValue_def)

lemma digitsValue_numToString: "digitsValue (numToString n) = n"
proof (induction n rule: numToString.induct)
  case (1 n)
  show ?case
  proof (cases "n < 10")
    case True
    then show ?thesis by (subst numToString.simps) (simp add: digitsValue_def)
  next
    case False
    then have "digitsValue (numToString n) = 10 * digitsValue (numToString (n div 10)) + n mod 10"
      by (subst numToString.simps) (simp add: digitsValue_snoc)
    then show ?thesis using 1 False by simp
  qed
qed

lemma numToString_inj: "numToString a = numToString b \<Longrightarrow> a = b"
  by (metis digitsValue_numToString)

lemma takeWhile_sep: "c \<notin> set a \<Longrightarrow> takeWhile (\<lambda>x. x \<noteq> c) (a @ c # b) = a"
  by (induction a) auto

lemma remdups_snoc: "remdups (ys @ [x]) = filter (\<lambda>y. y \<noteq> x) (remdups ys) @ [x]"
  by (induction ys) auto

lemma split_at_sep:
  assumes "a @ c # b = a' @ c # b'" "c \<notin> set a" "c \<notin> set a'"
  shows "a = a' \<and> b = b'"
proof -
  have "takeWhile (\<lambda>x. x \<noteq> c) (a @ c # b) = a" using assms(2) by (rule takeWhile_sep)
  moreover have "takeWhile (\<lambda>x. x \<noteq> c) (a' @ c # b') = a'" using assms(3) by (rule takeWhile_sep)
  ultimately have "a = a'" using assms(1) by simp
  then show ?thesis using assms(1) by simp
qed

lemma planKey_inj: "planKey p = planKey q \<longleftrightarrow> p = q"
proof
  assume e: "planKey p = planKey q"
  have n: "124 \<notin> set (numToString (plan_id p))" "124 \<notin> set (numToString (plan_id q))"
    using numToString_digits by fastforce+
  have "numToString (plan_id p) @ 124 # label p = numToString (plan_id q) @ 124 # label q"
    using e by (simp add: planKey_def js_def)
  from split_at_sep [OF this n] have "plan_id p = plan_id q" "label p = label q"
    using numToString_inj by auto
  then show "p = q" by simp
qed simp

lemma dedupeStep_planKey:
  "dedupeStep (seen, out) p = (if planKey p \<in> seen then (seen, out) else (insert (planKey p) seen, out @ [p]))"
  by (simp add: dedupeStep_def planKey_def Let_def)

lemma foldl_dedupeStep:
  "seen = planKey ` set out \<Longrightarrow>
     foldl dedupeStep (seen, out) ps
       = (planKey ` set (foldl (\<lambda>acc x. if x \<in> set acc then acc else acc @ [x]) out ps),
          foldl (\<lambda>acc x. if x \<in> set acc then acc else acc @ [x]) out ps)"
proof (induction ps arbitrary: seen out)
  case Nil
  then show ?case by simp
next
  case (Cons p ps)
  have mem: "planKey p \<in> seen \<longleftrightarrow> p \<in> set out"
    using Cons.prems planKey_inj by auto
  show ?case
  proof (cases "p \<in> set out")
    case True
    then show ?thesis using Cons.IH [OF Cons.prems] mem by (simp add: dedupeStep_planKey)
  next
    case False
    have "insert (planKey p) seen = planKey ` set (out @ [p])" using Cons.prems by auto
    from Cons.IH [OF this] show ?thesis using False mem by (simp add: dedupeStep_planKey)
  qed
qed

lemma dedupePlans_setOrder: "dedupePlans ps = setOrder ps"
  using foldl_dedupeStep [of "{}" "[]" ps] by (simp add: dedupePlans_def setOrder_def)

lemma firstSeen_Cons:
  "rev (remdups (rev (x # xs))) = x # filter (\<lambda>y. y \<noteq> x) (rev (remdups (rev xs)))"
proof -
  have "remdups (rev (x # xs)) = filter (\<lambda>y. y \<noteq> x) (remdups (rev xs)) @ [x]"
    by (simp add: remdups_snoc)
  then show ?thesis by (simp add: rev_filter)
qed

lemma foldl_firstSeen:
  "foldl (\<lambda>acc x. if x \<in> set acc then acc else acc @ [x]) acc xs
     = acc @ filter (\<lambda>y. y \<notin> set acc) (rev (remdups (rev xs)))"
proof (induction xs arbitrary: acc)
  case Nil
  then show ?case by simp
next
  case (Cons x xs)
  show ?case
  proof (cases "x \<in> set acc")
    case True
    then have "filter (\<lambda>y. y \<notin> set acc) (x # filter (\<lambda>y. y \<noteq> x) (rev (remdups (rev xs))))
        = filter (\<lambda>y. y \<notin> set acc) (rev (remdups (rev xs)))"
      by (auto intro: filter_cong)
    then show ?thesis using True Cons.IH [of acc] by (simp only: firstSeen_Cons foldl.simps if_True)
  next
    case False
    then have "filter (\<lambda>y. y \<notin> set acc) (x # filter (\<lambda>y. y \<noteq> x) (rev (remdups (rev xs))))
        = x # filter (\<lambda>y. y \<notin> set (acc @ [x])) (rev (remdups (rev xs)))"
      by (auto intro: filter_cong)
    then show ?thesis using False Cons.IH [of "acc @ [x]"]
      by (simp only: firstSeen_Cons foldl.simps if_False append_assoc append_Cons append_Nil)
  qed
qed

lemma setOrder_firstSeen: "setOrder xs = rev (remdups (rev xs))"
  using foldl_firstSeen [of "[]" xs] by (simp add: setOrder_def)

lemma rawPlans_total: "\<exists>raw. rawPlans html = Some raw"
proof -
  obtain ms where "execAll True plansRegex [] html = Some ms"
    unfolding plansRegex_def using execAll_total_ne [OF js_ne] by blast
  then show ?thesis by (simp add: rawPlans_def)
qed

text \<open>
  Claim C6. \<open>dedupePlans\<close> keeps the first occurrence of each (id, label) pair, in the
  order of the input: its result is the input without repetitions, each plan at the place of
  its first occurrence. Two equal plans give one entry; two plans with the same id and
  different labels give two. \<open>parsePlans\<close> always returns, and returns \<open>dedupePlans\<close> of
  the plans read from the page.
\<close>

theorem parsePlans_dedupe:
  "dedupePlans ps = rev (remdups (rev ps))
   \<and> distinct (dedupePlans ps) \<and> set (dedupePlans ps) = set ps
   \<and> dedupePlans [p, p] = [p]
   \<and> (plan_id p = plan_id q \<and> label p \<noteq> label q \<longrightarrow> dedupePlans [p, q] = [p, q])
   \<and> (\<exists>raw. rawPlans html = Some raw \<and> parsePlans html = Some (dedupePlans raw))"
proof (intro conjI)
  show "dedupePlans ps = rev (remdups (rev ps))"
    by (simp add: dedupePlans_setOrder setOrder_firstSeen)
  show "distinct (dedupePlans ps)" by (simp add: dedupePlans_setOrder)
  show "set (dedupePlans ps) = set ps" by (simp add: dedupePlans_setOrder)
  show "dedupePlans [p, p] = [p]" by (simp add: dedupePlans_setOrder setOrder_def)
  show "plan_id p = plan_id q \<and> label p \<noteq> label q \<longrightarrow> dedupePlans [p, q] = [p, q]"
    by (auto simp: dedupePlans_setOrder setOrder_def)
  show "\<exists>raw. rawPlans html = Some raw \<and> parsePlans html = Some (dedupePlans raw)"
    using rawPlans_total [of html] by (auto simp: parsePlans_def)
qed

theorem parsePlans_dedupe_witness:
  "parsePlans (js ''<input name=\"plan\" id=\"plan-20\"><label for=\"plan-20\">A <b>x</b></label><input name=\"plan\" id=\"plan-20\"><label for=\"plan-20\">A x</label>'')
     = Some [\<lparr>plan_id = 20, label = js ''A x''\<rparr>]
   \<and> parsePlans (js ''<input name=\"plan\" id=\"plan-20\"><label for=\"plan-20\">A</label><input name=\"plan\" id=\"plan-20\"><label for=\"plan-20\">B</label>'')
     = Some [\<lparr>plan_id = 20, label = js ''A''\<rparr>, \<lparr>plan_id = 20, label = js ''B''\<rparr>]"
proof -
  let ?h1 = "js ''<input name=\"plan\" id=\"plan-20\"><label for=\"plan-20\">A <b>x</b></label><input name=\"plan\" id=\"plan-20\"><label for=\"plan-20\">A x</label>''"
  let ?h2 = "js ''<input name=\"plan\" id=\"plan-20\"><label for=\"plan-20\">A</label><input name=\"plan\" id=\"plan-20\"><label for=\"plan-20\">B</label>''"
  let ?a = "\<lparr>plan_id = 20, label = js ''A''\<rparr>" and ?b = "\<lparr>plan_id = 20, label = js ''B''\<rparr>"
  let ?ax = "\<lparr>plan_id = 20, label = js ''A x''\<rparr>"
  have r1: "rawPlans ?h1 = Some [?ax, ?ax]" by (simp add: evy)
  have r2: "rawPlans ?h2 = Some [?a, ?b]" by (simp add: evy)
  have ne: "label ?a \<noteq> label ?b" by (simp add: js_def)
  have "parsePlans ?h1 = Some (dedupePlans [?ax, ?ax])"
    using parsePlans_dedupe [of "[]" ?ax ?ax ?h1] r1 by auto
  moreover have "dedupePlans [?ax, ?ax] = [?ax]"
    using parsePlans_dedupe [of "[]" ?ax ?ax ?h1] by blast
  moreover have "parsePlans ?h2 = Some (dedupePlans [?a, ?b])"
    using parsePlans_dedupe [of "[]" ?a ?b ?h2] r2 by auto
  moreover have "dedupePlans [?a, ?b] = [?a, ?b]"
    using parsePlans_dedupe [of "[]" ?a ?b ?h2] ne by simp
  ultimately show ?thesis by simp
qed

section \<open>Hidden fields\<close>

declare firstOf.simps(2) [simp del]

lemma firstOf_single [simp]: "firstOf f [x] = f x"
  by (cases "f x") (simp_all add: firstOf.simps(2))

lemma firstOf_append:
  "firstOf f (xs @ ys) = (case firstOf f xs of Some r \<Rightarrow> Some r | None \<Rightarrow> firstOf f ys)"
  by (induction xs) (simp_all add: firstOf.simps(2) split: option.splits)

lemma firstOf_concat_map:
  "firstOf f (concat (map g xs)) = firstOf (\<lambda>x. firstOf f (g x)) xs"
  by (induction xs) (simp_all add: firstOf_append firstOf.simps(2) split: option.splits)

lemma firstOf_map_option:
  "map_option h (firstOf f xs) = firstOf (\<lambda>x. map_option h (f x)) xs"
  by (induction xs) (simp_all add: firstOf.simps(2) split: option.splits)

lemma firstOf_Some: "firstOf Some xs = (case xs of [] \<Rightarrow> None | x # ys \<Rightarrow> Some x)"
  by (cases xs) (simp_all add: firstOf.simps(2))

lemma specOf_Nil: "specOf [] (\<lambda>s. Some [])"
  by (simp add: specOf_def matchAt.simps)

lemma specOf_Lit:
  assumes "specOf k V"
  shows "specOf (Lit l # k) (\<lambda>s. firstOf V (afterLitHere l s))"
  using assms by (simp add: specOf_def matchAt.simps(2) afterLitHere_def)

lemma specOf_Cls:
  assumes "specOf k V"
  shows "specOf (Cls quotes # k) (\<lambda>s. firstOf V (afterQuote s))"
  using assms by (simp add: specOf_def matchAt.simps(3) afterQuote_def split: list.splits)

lemma specOf_Rep:
  assumes k: "specOf k V"
  shows "specOf (Rep True 0 None notGt # k) (\<lambda>s. firstOf V (skipNoGt s))"
  unfolding specOf_def
proof (intro allI)
  fix p s caps
  show "map_option fst (matchAt True (Rep True 0 None notGt # k) p s caps)
        = map_option (\<lambda>c. c @ caps) (firstOf V (skipNoGt s))"
  proof (induction s arbitrary: p)
    case Nil
    show ?case using k by (subst matchAt.simps) (simp add: specOf_def)
  next
    case (Cons x xs)
    have kk: "map_option fst (matchAt True k p (x # xs) caps) = map_option (\<lambda>c. c @ caps) (V (x # xs))"
      using k by (simp add: specOf_def)
    show ?case
    proof (cases "inClass notGt x")
      case False
      then show ?thesis using kk by (subst matchAt.simps) simp
    next
      case True
      note ih = Cons.IH [of "x # p"]
      show ?thesis
      proof (cases "firstOf V (skipNoGt xs)")
        case None
        then have "matchAt True (Rep True 0 None notGt # k) (x # p) xs caps = None" using ih by simp
        then show ?thesis using True None kk
          by (subst matchAt.simps) (simp add: firstOf_append)
      next
        case (Some c)
        then obtain r where "matchAt True (Rep True 0 None notGt # k) (x # p) xs caps = Some r"
          "fst r = c @ caps" using ih by auto
        then show ?thesis using True Some
          by (subst matchAt.simps) (simp add: firstOf_append)
      qed
    qed
  qed
qed

lemma quotes_notQuote: "inClass quotes x \<longleftrightarrow> \<not> inClass notQuote x"
  by (simp add: quotes_def notQuote_def)

lemma capture_run:
  assumes k: "specOf k V"
  shows "map_option fst (matchAt True (Rep True 0 None notQuote # CapEnd 1 (length p0) # Cls quotes # k)
            (rev a @ p0) s caps)
         = map_option (\<lambda>c. c @ (1, a @ takeWhile (inClass notQuote) s) # caps)
             (firstOf V (afterQuote (dropWhile (inClass notQuote) s)))"
proof (induction s arbitrary: a)
  case Nil
  show ?case
    by (subst matchAt.simps) (simp add: matchAt.simps(7) matchAt.simps(3) afterQuote_def)
next
  case (Cons x xs)
  have stop: "map_option fst (matchAt True (CapEnd 1 (length p0) # Cls quotes # k) (rev a @ p0) (x # xs) caps)
      = (if inClass quotes x then map_option (\<lambda>c. c @ (1, a) # caps) (V xs) else None)"
    using k by (simp add: matchAt.simps(7) matchAt.simps(3) specOf_def)
  show ?case
  proof (cases "inClass notQuote x")
    case False
    then show ?thesis using stop
      by (subst matchAt.simps) (simp add: quotes_notQuote afterQuote_def)
  next
    case True
    note ih = Cons.IH [of "a @ [x]"]
    show ?thesis
    proof (cases "firstOf V (afterQuote (dropWhile (inClass notQuote) xs))")
      case None
      then have "matchAt True (Rep True 0 None notQuote # CapEnd 1 (length p0) # Cls quotes # k)
                    (x # rev a @ p0) xs caps = None" using ih by simp
      then show ?thesis using True None stop
        by (subst matchAt.simps) (simp add: quotes_notQuote)
    next
      case (Some c)
      then obtain r where "matchAt True (Rep True 0 None notQuote # CapEnd 1 (length p0) # Cls quotes # k)
                    (x # rev a @ p0) xs caps = Some r"
        "fst r = c @ (1, a @ x # takeWhile (inClass notQuote) xs) # caps" using ih by auto
      then show ?thesis using True Some
        by (subst matchAt.simps) simp
    qed
  qed
qed

lemma specOf_Cap:
  assumes k: "specOf k V"
  shows "specOf (Cap 1 [Rep True 0 None notQuote] # Cls quotes # k)
           (\<lambda>s. firstOf (\<lambda>vr. map_option (\<lambda>c. c @ [(1, fst vr)]) (V (snd vr))) (quotedValue s))"
  unfolding specOf_def
proof (intro allI)
  fix p s caps
  have "map_option fst (matchAt True (Cap 1 [Rep True 0 None notQuote] # Cls quotes # k) p s caps)
      = map_option fst (matchAt True (Rep True 0 None notQuote # CapEnd 1 (length p) # Cls quotes # k)
            (rev [] @ p) s caps)"
    by (simp add: matchAt.simps(6))
  also have "\<dots> = map_option (\<lambda>c. c @ (1, [] @ takeWhile (inClass notQuote) s) # caps)
             (firstOf V (afterQuote (dropWhile (inClass notQuote) s)))"
    by (rule capture_run [OF k])
  also have "\<dots> = map_option (\<lambda>c. c @ caps)
        (firstOf (\<lambda>vr. map_option (\<lambda>c. c @ [(1, fst vr)]) (V (snd vr))) (quotedValue s))"
    by (simp add: quotedValue_def afterQuote_def option.map_comp comp_def split: list.splits)
  finally show "map_option fst (matchAt True (Cap 1 [Rep True 0 None notQuote] # Cls quotes # k) p s caps)
      = map_option (\<lambda>c. c @ caps)
        (firstOf (\<lambda>vr. map_option (\<lambda>c. c @ [(1, fst vr)]) (V (snd vr))) (quotedValue s))" .
qed

lemma searchFrom_spec:
  assumes re: "specOf re V"
  shows "map_option fst (searchFrom True re p s) = firstOf V (tailsOf s)"
proof -
  have at: "map_option fst (matchAt True re p s []) = V s" for p s
    using re by (simp add: specOf_def option.map_ident)
  show ?thesis
  proof (induction s arbitrary: p)
    case Nil
    then show ?case using at [of p "[]"] by simp
  next
    case (Cons x xs)
    show ?case
    proof (cases "matchAt True re p (x # xs) []")
      case None
      then have "V (x # xs) = None" using at [of p "x # xs"] by simp
      then show ?thesis using None Cons.IH [of "x # p"] by (simp add: firstOf.simps(2))
    next
      case (Some r)
      then have "V (x # xs) = Some (fst r)" using at [of p "x # xs"] by simp
      then show ?thesis using Some by (simp add: firstOf.simps(2))
    qed
  qed
qed

lemma firstOf_map: "firstOf f (map g xs) = firstOf (\<lambda>x. f (g x)) xs"
  by (induction xs) (simp_all add: firstOf.simps(2) split: option.splits)

lemmas firstOf_norm = firstOf_map firstOf_concat_map firstOf_map_option option.map_comp comp_def

lemma inputRegex_first:
  "map_option (\<lambda>r. orEmpty (capGroup (fst r) 1)) (searchFrom True (inputRegex name) [] html)
     = firstOf Some (inputTagValues name html)"
proof -
  note s1 = specOf_Rep [OF specOf_Lit [OF specOf_Nil, of "js ''>''"]]
  note s2 = specOf_Cap [OF s1]
  note s3 = specOf_Rep [OF specOf_Lit [OF specOf_Cls [OF s2], of "js ''value=''"]]
  note s4 = specOf_Lit [OF specOf_Cls [OF specOf_Lit [OF specOf_Cls [OF s3], of name]], of "js ''name=''"]
  note s5 = specOf_Lit [OF specOf_Rep [OF s4], of "js ''<input''"]
  have "map_option (\<lambda>r. orEmpty (capGroup (fst r) 1)) (searchFrom True (inputRegex name) [] html)
      = map_option (\<lambda>c. orEmpty (capGroup c 1)) (map_option fst (searchFrom True (inputRegex name) [] html))"
    by (simp add: option.map_comp comp_def)
  also have "\<dots> = firstOf Some (inputTagValues name html)"
    unfolding inputRegex_def searchFrom_spec [OF s5]
    by (simp add: inputTagValues_def valueAttrs_def tagEnd_def firstOf_norm capGroup_def orEmpty_def)
  finally show ?thesis .
qed

lemma checkedRegex_first:
  "map_option (\<lambda>r. orEmpty (capGroup (fst r) 1)) (searchFrom True (checkedRegex name) [] html)
     = firstOf Some (checkedTagValues name html)"
proof -
  note s1 = specOf_Rep [OF specOf_Lit [OF specOf_Nil, of "js ''>''"]]
  note c1 = specOf_Rep [OF specOf_Lit [OF specOf_Cls [OF specOf_Lit [OF specOf_Cls [OF s1],
              of "js ''checked''"]], of "js ''checked=''"]]
  note s2 = specOf_Cap [OF c1]
  note s3 = specOf_Rep [OF specOf_Lit [OF specOf_Cls [OF s2], of "js ''value=''"]]
  note s4 = specOf_Lit [OF specOf_Cls [OF specOf_Lit [OF specOf_Cls [OF s3], of name]], of "js ''name=''"]
  note s5 = specOf_Lit [OF specOf_Rep [OF s4], of "js ''<input''"]
  have "map_option (\<lambda>r. orEmpty (capGroup (fst r) 1)) (searchFrom True (checkedRegex name) [] html)
      = map_option (\<lambda>c. orEmpty (capGroup c 1)) (map_option fst (searchFrom True (checkedRegex name) [] html))"
    by (simp add: option.map_comp comp_def)
  also have "\<dots> = firstOf Some (checkedTagValues name html)"
    unfolding checkedRegex_def searchFrom_spec [OF s5]
    by (simp add: checkedTagValues_def valueAttrs_def tagEnd_def checkedEnd_def firstOf_norm
        capGroup_def orEmpty_def)
  finally show ?thesis .
qed

lemma first_value:
  assumes "map_option (\<lambda>r. orEmpty (capGroup (fst r) 1)) (searchFrom True re [] html) = firstOf Some vs"
  shows "(case searchFrom True re [] html of None \<Rightarrow> []
          | Some (mt, p, s) \<Rightarrow> decodeHtml (orEmpty (capGroup mt 1)))
         = (case vs of [] \<Rightarrow> [] | v # ws \<Rightarrow> decodeHtml v)"
  using assms by (cases "searchFrom True re [] html"; cases vs) (auto simp: firstOf.simps(2))

lemma extractInputValue_first:
  "extractInputValue html name = (case inputTagValues name html of [] \<Rightarrow> [] | v # vs \<Rightarrow> decodeHtml v)"
  unfolding extractInputValue_def by (rule first_value [OF inputRegex_first])

lemma parseSelectedValue_first:
  "parseSelectedValue html name =
     (if extractInputValue html name \<noteq> [] then extractInputValue html name
      else case checkedTagValues name html of [] \<Rightarrow> [] | v # vs \<Rightarrow> decodeHtml v)"
  unfolding parseSelectedValue_def Let_def
  by (simp only: first_value [OF checkedRegex_first])

lemma skipNoGt_set: "a \<in> set (skipNoGt s) \<Longrightarrow> set a \<subseteq> set s"
  by (induction s) (auto split: if_splits)

lemma afterLitHere_set: "b \<in> set (afterLitHere l a) \<Longrightarrow> set b \<subseteq> set a"
  by (auto simp: afterLitHere_def split: if_splits dest: in_set_dropD)

lemma afterQuote_set: "c \<in> set (afterQuote b) \<Longrightarrow> set c \<subseteq> set b"
  by (auto simp: afterQuote_def split: list.splits if_splits)

lemma canon_gt: "canon 62 = canon x \<longleftrightarrow> x = 62"
  by (auto simp: canon_def)

lemma afterLitHere_gt:
  "afterLitHere (js ''>'') s = (case s of [] \<Rightarrow> [] | x # xs \<Rightarrow> if x = 62 then [xs] else [])"
  by (cases s) (auto simp: afterLitHere_def js_def chEq_def canon_gt)

lemma notGt_iff: "inClass notGt x \<longleftrightarrow> x \<noteq> 62"
  by (simp add: notGt_def js_def)

lemma tagEnd_iff: "tagEnd s \<noteq> [] \<longleftrightarrow> 62 \<in> set s"
proof (induction s)
  case Nil
  then show ?case by (simp add: tagEnd_def afterLitHere_gt)
next
  case (Cons x xs)
  have "tagEnd (x # xs) = (if inClass notGt x then tagEnd xs else []) @ afterLitHere (js ''>'') (x # xs)"
    by (simp add: tagEnd_def)
  then show ?case using Cons by (cases "x = 62") (simp_all add: afterLitHere_gt notGt_iff)
qed

lemma tagEnd_mono: "set a \<subseteq> set s \<Longrightarrow> tagEnd a \<noteq> [] \<Longrightarrow> tagEnd s \<noteq> []"
  unfolding tagEnd_iff by blast

lemma checkedEnd_tagEnd:
  assumes "checkedEnd s \<noteq> []"
  shows "tagEnd s \<noteq> []"
proof -
  from assms obtain y where "y \<in> set (checkedEnd s)" by (cases "checkedEnd s") auto
  then have "\<exists>a b c d e. a \<in> set (skipNoGt s)
      \<and> b \<in> set (afterLitHere (js ''checked='') a) \<and> c \<in> set (afterQuote b)
      \<and> d \<in> set (afterLitHere (js ''checked'') c) \<and> e \<in> set (afterQuote d)
      \<and> y \<in> set (tagEnd e)"
    unfolding checkedEnd_def by (simp add: Bex_def)
  then obtain a b c d e where a: "a \<in> set (skipNoGt s)"
    and b: "b \<in> set (afterLitHere (js ''checked='') a)" and c: "c \<in> set (afterQuote b)"
    and d: "d \<in> set (afterLitHere (js ''checked'') c)" and e: "e \<in> set (afterQuote d)"
    and y': "y \<in> set (tagEnd e)"
    by (elim exE conjE) (rule that; assumption)
  have y: "tagEnd e \<noteq> []" using y' by auto
  have "set e \<subseteq> set s"
    using skipNoGt_set [OF a] afterLitHere_set [OF b] afterQuote_set [OF c] afterLitHere_set [OF d]
      afterQuote_set [OF e] by blast
  then show ?thesis using y by (rule tagEnd_mono)
qed

lemma checked_subset: "set (checkedTagValues name html) \<subseteq> set (inputTagValues name html)"
proof
  fix v assume "v \<in> set (checkedTagValues name html)"
  then have "\<exists>vr. vr \<in> set (valueAttrs name html) \<and> v = fst vr \<and> checkedEnd (snd vr) \<noteq> []"
    unfolding checkedTagValues_def by (auto simp: Bex_def)
  then obtain vr where vr: "vr \<in> set (valueAttrs name html)" and v: "v = fst vr"
    and ce: "checkedEnd (snd vr) \<noteq> []"
    by (elim exE conjE) (rule that; assumption)
  from ce have "tagEnd (snd vr) \<noteq> []" by (rule checkedEnd_tagEnd)
  then obtain y where "y \<in> set (tagEnd (snd vr))" by (cases "tagEnd (snd vr)") auto
  then show "v \<in> set (inputTagValues name html)"
    unfolding inputTagValues_def using vr v by auto
qed

lemma valueAttrs_noquote:
  assumes "vr \<in> set (valueAttrs name html)"
  shows "list_all (inClass notQuote) (fst vr)"
proof -
  from assms obtain i where "vr \<in> set (quotedValue i)" unfolding valueAttrs_def by auto
  then have "fst vr = takeWhile (inClass notQuote) i" unfolding quotedValue_def by auto
  then show ?thesis by (simp add: list_all_iff) (meson set_takeWhileD)
qed

lemma inputTagValues_noquote:
  "\<forall>v\<in>set (inputTagValues name html). list_all (inClass notQuote) v"
  unfolding inputTagValues_def using valueAttrs_noquote by auto

lemma decodeHtml_trimmed: "trim (decodeHtml v) = decodeHtml v"
  by (simp add: decodeHtml_def trim_idem)

lemma trim_first: "trim (case vs of [] \<Rightarrow> [] | v # ws \<Rightarrow> decodeHtml v) = (case vs of [] \<Rightarrow> [] | v # ws \<Rightarrow> decodeHtml v)"
  by (cases vs) (simp_all add: decodeHtml_trimmed trim_Nil)

lemmas evi = js_def chEq_def canon_def quotes_def notQuote_def notGt_def inputTagValues_def
  checkedTagValues_def valueAttrs_def tagEnd_def checkedEnd_def quotedValue_def afterLitHere_def
  afterQuote_def




end
